theory Spec2Isabelle
  imports Main
begin

section \<open>Markdown flashcards: the metadata store of \<^verbatim>\<open>internal/files.go\<close> and \<^verbatim>\<open>internal/utils.go\<close>\<close>

text \<open>
  Text is modelled as \<^typ>\<open>string\<close>, one \<^typ>\<open>char\<close> per character of the Go string
  (the model is exact for ASCII files, where a byte, a rune and a character coincide).
  Every \<^verbatim>\<open>time.Time\<close> the two source files build is a calendar day at midnight UTC
  (\<^verbatim>\<open>time.Parse("2006-01-02", _)\<close> and \<^verbatim>\<open>time.Date(y, m, d, 0, 0, 0, 0, time.UTC)\<close>),
  so a time value is modelled by its year, month and day.
\<close>

subsection \<open>Dates\<close>

record date =
  year :: nat
  month :: nat
  day :: nat

text \<open>\<^verbatim>\<open>time.Time{}\<close>, the zero value: January 1 of year 1.\<close>

definition zero_time :: date where
  "zero_time = \<lparr>year = 1, month = 1, day = 1\<rparr>"

definition IsZero :: "date \<Rightarrow> bool" where
  "IsZero t = (t = zero_time)"

definition Before :: "date \<Rightarrow> date \<Rightarrow> bool" where
  "Before a b =
     (year a < year b \<or>
      (year a = year b \<and> (month a < month b \<or> (month a = month b \<and> day a < day b))))"

definition Equal :: "date \<Rightarrow> date \<Rightarrow> bool" where
  "Equal a b = (year a = year b \<and> month a = month b \<and> day a = day b)"

subsection \<open>Cards\<close>

record card =
  Id :: string
  Category :: string
  Front :: string
  Back :: string
  Box :: nat
  Due :: date
  Enabled :: bool

text \<open>\<^verbatim>\<open>Card{}\<close>, the zero value of the struct.\<close>

definition empty_card :: card where
  "empty_card = \<lparr>Id = [], Category = [], Front = [], Back = [], Box = 0,
                  Due = zero_time, Enabled = False\<rparr>"

datatype error = NoFileSpecified | FileNotFound | NoCardsFound | OverdueFound

subsection \<open>Characters and string helpers\<close>

text \<open>The class \<^verbatim>\<open>\s\<close> of Go's regexp syntax: tab, newline, form feed, carriage return, space.\<close>

definition is_space :: "char \<Rightarrow> bool" where
  "is_space c = (c \<in> set [CHR 0x09, CHR 0x0A, CHR 0x0C, CHR 0x0D, CHR '' ''])"

text \<open>The class \<^verbatim>\<open>\d\<close>.\<close>

definition is_digit :: "char \<Rightarrow> bool" where
  "is_digit c = (c \<in> set ''0123456789'')"

text \<open>The white space of \<^verbatim>\<open>strings.TrimSpace\<close> on ASCII text: \<^verbatim>\<open>\s\<close> and the vertical tab.\<close>

definition is_trim_space :: "char \<Rightarrow> bool" where
  "is_trim_space c = (c \<in> set [CHR 0x09, CHR 0x0A, CHR 0x0B, CHR 0x0C, CHR 0x0D, CHR '' ''])"

definition TrimSpace :: "string \<Rightarrow> string" where
  "TrimSpace s = rev (dropWhile is_trim_space (rev (dropWhile is_trim_space s)))"

text \<open>\<^verbatim>\<open>strings.TrimRight(line, " ")\<close>.\<close>

definition TrimRight_sp :: "string \<Rightarrow> string" where
  "TrimRight_sp s = rev (dropWhile (\<lambda>c. c = CHR '' '') (rev s))"

definition HasPrefix :: "string \<Rightarrow> string \<Rightarrow> bool" where
  "HasPrefix s p = (take (length p) s = p)"

definition HasSuffix :: "string \<Rightarrow> string \<Rightarrow> bool" where
  "HasSuffix s p = (length p \<le> length s \<and> drop (length s - length p) s = p)"

text \<open>\<^verbatim>\<open>strings.TrimSuffix\<close>.\<close>

definition TrimSuffix :: "string \<Rightarrow> string \<Rightarrow> string" where
  "TrimSuffix s p = (if HasSuffix s p then take (length s - length p) s else s)"

text \<open>The test on a line that \<^verbatim>\<open>OpenFile\<close> and \<^verbatim>\<open>CreateCopyToShare\<close> share.\<close>

definition is_header :: "string \<Rightarrow> bool" where
  "is_header line = (HasPrefix line ''## '' \<or> HasPrefix line ''### '' \<or> HasPrefix line ''#### '')"

text \<open>\<^verbatim>\<open>strings.Join(lines, "\n")\<close>.\<close>

fun join_nl :: "string list \<Rightarrow> string" where
  "join_nl [] = []"
| "join_nl [l] = l"
| "join_nl (l # ls) = l @ CHR 0x0A # join_nl ls"

text \<open>
  The tokens of a \<^verbatim>\<open>bufio.Scanner\<close> with the default split function \<^verbatim>\<open>ScanLines\<close>:
  the text up to each newline, one trailing carriage return dropped; unterminated text at
  the end of the input is a last line, and nothing follows a final newline. \<open>cur\<close> is the
  line read so far.

  The scanner's buffer holds \<^verbatim>\<open>MaxScanTokenSize\<close> bytes. When it is full and the split
  function has found no token in it, \<^verbatim>\<open>Scan\<close> returns false with \<^verbatim>\<open>ErrTooLong\<close>; the
  two loops of the program never read \<^verbatim>\<open>scanner.Err()\<close>, so for them the input ends
  there. A line is a token only if it is shorter than the buffer (its newline, when it has
  one, is the last byte that fits).
\<close>

definition MaxScanTokenSize :: nat where
  "MaxScanTokenSize = 65536"

definition dropCR :: "string \<Rightarrow> string" where
  "dropCR l = (if l \<noteq> [] \<and> last l = CHR 0x0D then butlast l else l)"

fun scan_acc :: "string \<Rightarrow> string \<Rightarrow> string list" where
  "scan_acc cur [] =
     (if cur = [] then [] else if length cur < MaxScanTokenSize then [dropCR cur] else [])"
| "scan_acc cur (c # cs) =
     (if c = CHR 0x0A
      then (if length cur < MaxScanTokenSize then dropCR cur # scan_acc [] cs else [])
      else scan_acc (cur @ [c]) cs)"

definition scan_lines :: "string \<Rightarrow> string list" where
  "scan_lines data = scan_acc [] data"

text \<open>Decimal output of \<^verbatim>\<open>%d\<close>, and zero padding to a width.\<close>

definition digit_char :: "nat \<Rightarrow> char" where
  "digit_char d = ''0123456789'' ! d"

fun dec :: "nat \<Rightarrow> string" where
  "dec n = (if n < 10 then [digit_char n] else dec (n div 10) @ [digit_char (n mod 10)])"

definition pad :: "nat \<Rightarrow> string \<Rightarrow> string" where
  "pad w s = replicate (w - length s) (CHR ''0'') @ s"

text \<open>\<^verbatim>\<open>t.Format("2006-01-02")\<close>.\<close>

definition format_date :: "date \<Rightarrow> string" where
  "format_date d = pad 4 (dec (year d)) @ ''-'' @ pad 2 (dec (month d)) @ ''-'' @ pad 2 (dec (day d))"

text \<open>\<^verbatim>\<open>%t\<close>.\<close>

definition format_bool :: "bool \<Rightarrow> string" where
  "format_bool b = (if b then ''true'' else ''false'')"

text \<open>The value of a string of decimal digits (\<^verbatim>\<open>strconv.Atoi\<close> on digits).\<close>

definition digit_val :: "char \<Rightarrow> nat" where
  "digit_val c = of_char c - 48"

definition digits_val :: "string \<Rightarrow> nat" where
  "digits_val s = foldl (\<lambda>a c. 10 * a + digit_val c) 0 s"

text \<open>The shape \<^verbatim>\<open>\d{4}-\d{2}-\d{2}\<close>.\<close>

definition is_date :: "string \<Rightarrow> bool" where
  "is_date d = (length d = 10 \<and> list_all is_digit (take 4 d) \<and> d ! 4 = CHR ''-'' \<and>
                list_all is_digit (take 2 (drop 5 d)) \<and> d ! 7 = CHR ''-'' \<and>
                list_all is_digit (drop 8 d))"

text \<open>
  \<^verbatim>\<open>time.Parse("2006-01-02", s)\<close>: the layout must fit, the month lie in 1..12 and the day
  in the month; \<open>None\<close> is the error.
\<close>

definition isLeap :: "nat \<Rightarrow> bool" where
  "isLeap y = (y mod 4 = 0 \<and> (y mod 100 \<noteq> 0 \<or> y mod 400 = 0))"

definition daysIn :: "nat \<Rightarrow> nat \<Rightarrow> nat" where
  "daysIn m y = (if m = 2 then (if isLeap y then 29 else 28)
                 else if m \<in> set [4, 6, 9, 11] then 30 else 31)"

definition valid_date :: "date \<Rightarrow> bool" where
  "valid_date d = (year d \<le> 9999 \<and> 1 \<le> month d \<and> month d \<le> 12 \<and>
                   1 \<le> day d \<and> day d \<le> daysIn (month d) (year d))"

definition time_Parse :: "string \<Rightarrow> date option" where
  "time_Parse s =
     (if is_date s
      then (let d = \<lparr>year = digits_val (take 4 s), month = digits_val (take 2 (drop 5 s)),
                     day = digits_val (drop 8 s)\<rparr>
            in if valid_date d then Some d else None)
      else None)"

text \<open>\<^verbatim>\<open>strconv.Atoi\<close> on the box field; \<open>None\<close> is the error.\<close>

definition Atoi :: "string \<Rightarrow> nat option" where
  "Atoi s = (if s \<noteq> [] \<and> list_all is_digit s then Some (digits_val s) else None)"

subsection \<open>Metadata codec: the pattern of \<^verbatim>\<open>getMetadata\<close> and \<^verbatim>\<open>generateNewId\<close>\<close>

text \<open>
  \<^verbatim>\<open><!--\s*(.{4});(\d);(\d{4}-\d{2}-\d{2})(?:;(true|false))?\s*-->\<close>, matched the way
  Go's \<^verbatim>\<open>regexp\<close> does: the leftmost match, and among the matches at one position the one
  a backtracking search meets first (greedy repetition first). Each function below matches
  one tail of the pattern at the head of its argument; \<open>orelse\<close> is the next alternative
  of the search.
\<close>

record meta_match =
  grp1 :: string
  grp2 :: string
  grp3 :: string
  grp4 :: string
  rest :: string

definition orelse :: "'a option \<Rightarrow> 'a option \<Rightarrow> 'a option" where
  "orelse a b = (case a of Some x \<Rightarrow> Some x | None \<Rightarrow> b)"

text \<open>A literal at the head of the text; the result is what follows it.\<close>

definition lit :: "string \<Rightarrow> string \<Rightarrow> string option" where
  "lit p s = (if take (length p) s = p then Some (drop (length p) s) else None)"

text \<open>\<^verbatim>\<open>\s*-->\<close>\<close>

fun close_at :: "string \<Rightarrow> string option" where
  "close_at [] = None"
| "close_at (c # cs) =
     (if is_space c then orelse (close_at cs) (lit ''-->'' (c # cs)) else lit ''-->'' (c # cs))"

text \<open>\<^verbatim>\<open>(?:;(true|false))?\s*-->\<close>: the group, its two alternatives in order, then without it.\<close>

definition enabled_at :: "string \<Rightarrow> (string \<times> string) option" where
  "enabled_at s =
     orelse (case lit '';true'' s of None \<Rightarrow> None
             | Some r \<Rightarrow> map_option (Pair ''true'') (close_at r))
    (orelse (case lit '';false'' s of None \<Rightarrow> None
             | Some r \<Rightarrow> map_option (Pair ''false'') (close_at r))
            (map_option (Pair []) (close_at s)))"

text \<open>\<^verbatim>\<open>(.{4});(\d);(\d{4}-\d{2}-\d{2})(?:;(true|false))?\s*-->\<close>; the dot excludes the newline.\<close>

definition meta_body :: "string \<Rightarrow> meta_match option" where
  "meta_body s =
     (if 7 \<le> length s \<and> CHR 0x0A \<notin> set (take 4 s) \<and> s ! 4 = CHR '';'' \<and> is_digit (s ! 5) \<and>
         s ! 6 = CHR '';'' \<and> is_date (take 10 (drop 7 s))
      then (case enabled_at (drop 17 s) of None \<Rightarrow> None
            | Some (en, r) \<Rightarrow>
                Some \<lparr>grp1 = take 4 s, grp2 = [s ! 5], grp3 = take 10 (drop 7 s), grp4 = en, rest = r\<rparr>)
      else None)"

text \<open>\<^verbatim>\<open>\s*\<close> before the body: as much white space as possible first.\<close>

fun meta_ws :: "string \<Rightarrow> meta_match option" where
  "meta_ws [] = meta_body []"
| "meta_ws (c # cs) =
     (if is_space c then orelse (meta_ws cs) (meta_body (c # cs)) else meta_body (c # cs))"

text \<open>The whole pattern at the head of the text.\<close>

definition meta_at :: "string \<Rightarrow> meta_match option" where
  "meta_at s = (case lit ''<!--'' s of None \<Rightarrow> None | Some r \<Rightarrow> meta_ws r)"

text \<open>\<^verbatim>\<open>re.FindStringSubmatch\<close>: the match at the leftmost position that has one.\<close>

fun find_meta :: "string \<Rightarrow> meta_match option" where
  "find_meta [] = None"
| "find_meta (c # cs) = orelse (meta_at (c # cs)) (find_meta cs)"

definition getMetadata :: "string \<Rightarrow> string \<times> string \<times> string \<times> bool" where
  "getMetadata line =
     (case find_meta line of
        Some m \<Rightarrow> (grp1 m, grp2 m, grp3 m, (if grp4 m \<noteq> [] then grp4 m = ''true'' else True))
      | None \<Rightarrow> ([], [], [], True))"

lemma lit_Some_iff: "lit p s = Some r \<longleftrightarrow> s = p @ r"
proof
  assume "lit p s = Some r"
  then have "take (length p) s = p" "r = drop (length p) s"
    by (auto simp: lit_def split: if_splits)
  then show "s = p @ r" by (metis append_take_drop_id)
next
  assume "s = p @ r"
  then show "lit p s = Some r" by (simp add: lit_def)
qed

lemma close_at_length: "close_at s = Some r \<Longrightarrow> length r < length s"
proof (induction s)
  case Nil
  then show ?case by simp
next
  case (Cons c cs)
  show ?case
  proof (cases "is_space c \<and> close_at cs \<noteq> None")
    case True
    with Cons show ?thesis by (auto simp: orelse_def)
  next
    case False
    with Cons.prems have "lit ''-->'' (c # cs) = Some r"
      by (auto simp: orelse_def split: if_splits)
    then have "c # cs = ''-->'' @ r" by (simp only: lit_Some_iff)
    then have "length (c # cs) = length (''-->'' @ r)" by (rule arg_cong)
    then show ?thesis by simp
  qed
qed

lemma enabled_at_cases:
  assumes "enabled_at s = Some (en, r)"
  shows "(\<exists>t. s = '';true'' @ t \<and> close_at t = Some r \<and> en = ''true'') \<or>
         (\<exists>t. s = '';false'' @ t \<and> close_at t = Some r \<and> en = ''false'') \<or>
         (close_at s = Some r \<and> en = [])"
  using assms unfolding enabled_at_def orelse_def
  by (auto split: option.splits simp: lit_Some_iff simp del: close_at.simps)

lemma enabled_at_length: "enabled_at s = Some (en, r) \<Longrightarrow> length r < length s"
  by (drule enabled_at_cases) (auto dest!: close_at_length)

lemma meta_body_length: "meta_body s = Some m \<Longrightarrow> length (rest m) < length s"
  unfolding meta_body_def
  by (auto split: if_splits option.splits dest!: enabled_at_length)

lemma meta_ws_length: "meta_ws s = Some m \<Longrightarrow> length (rest m) \<le> length s"
proof (induction s)
  case Nil
  then show ?case by (auto dest: meta_body_length)
next
  case (Cons c cs)
  show ?case
  proof (cases "is_space c \<and> meta_ws cs \<noteq> None")
    case True
    with Cons show ?thesis by (auto simp: orelse_def)
  next
    case False
    with Cons.prems have "meta_body (c # cs) = Some m"
      by (auto simp: orelse_def split: if_splits)
    then show ?thesis by (auto dest: meta_body_length)
  qed
qed

lemma meta_at_length: "meta_at s = Some m \<Longrightarrow> length (rest m) < length s"
  unfolding meta_at_def
  by (auto split: option.splits simp: lit_Some_iff dest!: meta_ws_length)

text \<open>
  \<^verbatim>\<open>re.ReplaceAllString(line, updated)\<close> for the metadata pattern: every match, from the
  left, gives way to the replacement, and the search goes on behind the match.
  (The replacement holds no \<^verbatim>\<open>$\<close>, so it is copied as it is.)
\<close>

function replace_meta :: "string \<Rightarrow> string \<Rightarrow> string" where
  "replace_meta rep [] = []"
| "replace_meta rep (c # cs) =
     (case meta_at (c # cs) of
        Some m \<Rightarrow> rep @ replace_meta rep (rest m)
      | None \<Rightarrow> c # replace_meta rep cs)"
  by pat_completeness auto
termination
  by (relation "measure (\<lambda>(rep, s). length s)") (auto dest: meta_at_length)

subsection \<open>\<^verbatim>\<open>initializeMetadata\<close>\<close>

text \<open>\<^verbatim>\<open>.*-->\<close>: the longest run of non-newline characters that a \<^verbatim>\<open>-->\<close> follows.\<close>

fun dotstar_close :: "string \<Rightarrow> string option" where
  "dotstar_close [] = None"
| "dotstar_close (c # cs) =
     orelse (if c = CHR 0x0A then None else dotstar_close cs) (lit ''-->'' (c # cs))"

text \<open>\<^verbatim>\<open>\s*<!--.*-->\<close> at the head of the text.\<close>

definition comment_at :: "string \<Rightarrow> string option" where
  "comment_at s = (case lit ''<!--'' s of None \<Rightarrow> None | Some r \<Rightarrow> dotstar_close r)"

fun strip_at :: "string \<Rightarrow> string option" where
  "strip_at [] = comment_at []"
| "strip_at (c # cs) =
     (if is_space c then orelse (strip_at cs) (comment_at (c # cs)) else comment_at (c # cs))"

lemma dotstar_close_length: "dotstar_close s = Some r \<Longrightarrow> length r < length s"
proof (induction s)
  case Nil
  then show ?case by simp
next
  case (Cons c cs)
  show ?case
  proof (cases "c \<noteq> CHR 0x0A \<and> dotstar_close cs \<noteq> None")
    case True
    with Cons show ?thesis by (auto simp: orelse_def)
  next
    case False
    with Cons.prems have "lit ''-->'' (c # cs) = Some r"
      by (auto simp: orelse_def split: if_splits)
    then have "c # cs = ''-->'' @ r" by (simp only: lit_Some_iff)
    then have "length (c # cs) = length (''-->'' @ r)" by (rule arg_cong)
    then show ?thesis by simp
  qed
qed

lemma comment_at_length: "comment_at s = Some r \<Longrightarrow> length r < length s"
  unfolding comment_at_def
  by (auto split: option.splits simp: lit_Some_iff dest!: dotstar_close_length)

lemma strip_at_length: "strip_at s = Some r \<Longrightarrow> length r < length s"
proof (induction s)
  case Nil
  then show ?case by (simp add: comment_at_def lit_def)
next
  case (Cons c cs)
  show ?case
  proof (cases "is_space c \<and> strip_at cs \<noteq> None")
    case True
    with Cons show ?thesis by (auto simp: orelse_def)
  next
    case False
    with Cons.prems have "comment_at (c # cs) = Some r"
      by (auto simp: orelse_def split: if_splits)
    then show ?thesis by (rule comment_at_length)
  qed
qed

text \<open>\<^verbatim>\<open>regexp.MustCompile(`\s*<!--.*-->`).ReplaceAllString(line, "")\<close>\<close>

function strip_comments :: "string \<Rightarrow> string" where
  "strip_comments [] = []"
| "strip_comments (c # cs) =
     (case strip_at (c # cs) of
        Some r \<Rightarrow> strip_comments r
      | None \<Rightarrow> c # strip_comments cs)"
  by pat_completeness auto
termination
  by (relation "measure length") (auto dest: strip_at_length simp del: strip_at.simps)

text \<open>
  The identifier alphabet handed to \<^verbatim>\<open>gonanoid.MustGenerate\<close>. The generator itself is
  outside the repository: the identifier it returns at a call is the parameter \<open>newid\<close> of
  the two functions that call it, and \<open>valid_id\<close> is what it promises (four symbols of the
  alphabet).
\<close>

definition alphabet :: string where
  "alphabet = ''0123456789ABCDEFGHIJKLMNOPQRSTUVWXYZabcdefghijklmnopqrstuvwxyz''"

definition valid_id :: "string \<Rightarrow> bool" where
  "valid_id i = (length i = 4 \<and> list_all (\<lambda>c. c \<in> set alphabet) i)"

text \<open>The block \<^verbatim>\<open><!--%s;%s;%s;%t-->\<close>.\<close>

definition block :: "string \<Rightarrow> string \<Rightarrow> string \<Rightarrow> bool \<Rightarrow> string" where
  "block i b d e = ''<!--'' @ i @ '';'' @ b @ '';'' @ d @ '';'' @ format_bool e @ ''-->''"

definition initializeMetadata ::
  "string \<Rightarrow> date \<Rightarrow> string \<Rightarrow> string \<times> string \<times> string \<times> string \<times> bool" where
  "initializeMetadata newid today line =
     (let box = ''0''; due = format_date today; enabled = True;
          updatedLine = strip_comments line
      in (updatedLine @ '' '' @ block newid box due enabled, newid, box, due, enabled))"

subsection \<open>\<^verbatim>\<open>generateNewId\<close>\<close>

definition generateNewId :: "string \<Rightarrow> date \<Rightarrow> string \<Rightarrow> string \<times> string" where
  "generateNewId newid today line =
     (case find_meta line of
        Some m \<Rightarrow>
          (let updated = ''<!--'' @ newid @ '';'' @ grp2 m @ '';'' @ grp3 m;
               updated = (if grp4 m \<noteq> [] then updated @ '';'' @ grp4 m else updated);
               updated = updated @ ''-->''
           in (replace_meta updated line, newid))
      | None \<Rightarrow>
          (TrimRight_sp line @ '' '' @ ''<!--'' @ newid @ '';0;'' @ format_date today @ '';true-->'',
           newid))"

subsection \<open>\<^verbatim>\<open>extractQuestion\<close> and \<^verbatim>\<open>getCardFromLine\<close>\<close>

text \<open>\<^verbatim>\<open>(.*)<!--\<close>: the result is the text of the group.\<close>

fun dotstar_open :: "string \<Rightarrow> string option" where
  "dotstar_open [] = None"
| "dotstar_open (c # cs) =
     orelse (if c = CHR 0x0A then None else map_option ((#) c) (dotstar_open cs))
            (if take 4 (c # cs) = ''<!--'' then Some [] else None)"

text \<open>\<^verbatim>\<open>\s+(.*)<!--\<close>\<close>

fun question_ws :: "string \<Rightarrow> string option" where
  "question_ws [] = None"
| "question_ws (c # cs) =
     (if is_space c then orelse (question_ws cs) (dotstar_open cs) else None)"

text \<open>\<^verbatim>\<open>##\s+(.*)<!--\<close> at the head of the text, and at the leftmost position.\<close>

definition question_at :: "string \<Rightarrow> string option" where
  "question_at s = (case lit ''##'' s of None \<Rightarrow> None | Some r \<Rightarrow> question_ws r)"

fun find_question :: "string \<Rightarrow> string option" where
  "find_question [] = None"
| "find_question (c # cs) = orelse (question_at (c # cs)) (find_question cs)"

definition extractQuestion :: "string \<Rightarrow> string" where
  "extractQuestion line = (case find_question line of Some g \<Rightarrow> TrimSpace g | None \<Rightarrow> [])"

text \<open>\<open>None\<close> is the panic of \<^verbatim>\<open>check(err)\<close>, after \<^verbatim>\<open>Atoi\<close> or after \<^verbatim>\<open>time.Parse\<close>.\<close>

definition getCardFromLine :: "string \<Rightarrow> string \<Rightarrow> card option" where
  "getCardFromLine line category =
     (case getMetadata line of (i, box, due, enabled) \<Rightarrow>
        (case Atoi box of None \<Rightarrow> None
         | Some b \<Rightarrow>
            (case time_Parse due of None \<Rightarrow> None
             | Some d \<Rightarrow>
                Some \<lparr>Id = i, Category = category, Front = extractQuestion line, Back = [],
                      Box = b, Due = d, Enabled = enabled\<rparr>)))"

subsection \<open>\<^verbatim>\<open>OpenFile\<close>: the first loop\<close>

text \<open>
  The random generator is a sequence \<open>gen\<close> of identifiers and a position \<open>n\<close> in it:
  each call of \<^verbatim>\<open>gonanoid.MustGenerate\<close> returns \<open>gen n\<close> and moves to \<open>Suc n\<close>.
  \<open>today\<close> is the date of \<^verbatim>\<open>time.Now()\<close>.

  The inner loop \<^verbatim>\<open>for ids[id] { line, id = generateNewId(line) }\<close> runs for as long as
  the generator returns identifiers that were seen; \<open>None\<close> is the run that never leaves it.
\<close>

partial_function (option) regenerate ::
  "(nat \<Rightarrow> string) \<Rightarrow> date \<Rightarrow> string set \<Rightarrow> string \<Rightarrow> string \<Rightarrow> nat \<Rightarrow> (string \<times> string \<times> nat) option"
where
  "regenerate gen today ids line i n =
     (if i \<in> ids
      then (case generateNewId (gen n) today line of
              (line', i') \<Rightarrow> regenerate gen today ids line' i' (Suc n))
      else Some (line, i, n))"

declare regenerate.simps [code]

text \<open>The body of the first loop for one line: the line to keep, the identifiers seen, the generator.\<close>

definition process_line ::
  "(nat \<Rightarrow> string) \<Rightarrow> date \<Rightarrow> string set \<Rightarrow> nat \<Rightarrow> string \<Rightarrow> (string \<times> string set \<times> nat) option"
where
  "process_line gen today ids n line =
     (if is_header line
      then (case getMetadata line of (i, _) \<Rightarrow>
              (case (if i = []
                     then (case initializeMetadata (gen n) today line of
                             (line', i', _) \<Rightarrow> (line', i', Suc n))
                     else (line, i, n)) of
                 (line1, i1, n1) \<Rightarrow>
                   (case regenerate gen today ids line1 i1 n1 of
                      None \<Rightarrow> None
                    | Some (line2, i2, n2) \<Rightarrow> Some (line2, insert i2 ids, n2))))
      else Some (line, ids, n))"

fun first_loop ::
  "(nat \<Rightarrow> string) \<Rightarrow> date \<Rightarrow> string set \<Rightarrow> nat \<Rightarrow> string list \<Rightarrow> (string list \<times> string set \<times> nat) option"
where
  "first_loop gen today ids n [] = Some ([], ids, n)"
| "first_loop gen today ids n (l # ls) =
     (case process_line gen today ids n l of
        None \<Rightarrow> None
      | Some (l', ids', n') \<Rightarrow>
          (case first_loop gen today ids' n' ls of
             None \<Rightarrow> None
           | Some (ls', ids'', n'') \<Rightarrow> Some (l' # ls', ids'', n'')))"

subsection \<open>\<^verbatim>\<open>OpenFile\<close>: the second loop\<close>

record xstate =
  fileCards :: "card list"
  currentCard :: card
  currentCategory :: string
  readBack :: bool

definition appendCard :: "xstate \<Rightarrow> xstate" where
  "appendCard st =
     st\<lparr>fileCards := fileCards st @ [(currentCard st)\<lparr>Back := TrimSpace (Back (currentCard st))\<rparr>],
        currentCard := empty_card\<rparr>"

definition flush_full :: "xstate \<Rightarrow> xstate" where
  "flush_full st =
     (if Front (currentCard st) \<noteq> [] \<and> Back (currentCard st) \<noteq> [] then appendCard st else st)"

text \<open>One line of the \<^verbatim>\<open>switch\<close>; \<open>None\<close> is the panic inside \<^verbatim>\<open>getCardFromLine\<close>.\<close>

definition card_step :: "xstate \<Rightarrow> string \<Rightarrow> xstate option" where
  "card_step st l =
     (if HasPrefix l ''# ''
      then Some ((flush_full st)\<lparr>currentCategory := TrimSpace (drop 2 l), readBack := False\<rparr>)
      else if is_header l
      then (let st' = flush_full st in
            case getCardFromLine l (currentCategory st') of
              None \<Rightarrow> None
            | Some c \<Rightarrow> Some (st'\<lparr>currentCard := c, readBack := True\<rparr>))
      else Some (if readBack st
                 then st\<lparr>currentCard :=
                        (currentCard st)\<lparr>Back := Back (currentCard st) @ l @ [CHR 0x0A]\<rparr>\<rparr>
                 else st))"

fun second_loop :: "xstate \<Rightarrow> string list \<Rightarrow> xstate option" where
  "second_loop st [] = Some st"
| "second_loop st (l # ls) =
     (case card_step st l of None \<Rightarrow> None | Some st' \<Rightarrow> second_loop st' ls)"

definition init_xstate :: xstate where
  "init_xstate = \<lparr>fileCards = [], currentCard = empty_card, currentCategory = [], readBack = False\<rparr>"

text \<open>The cards of the lines, after the final \<^verbatim>\<open>if readBack { appendCard() }\<close>.\<close>

definition extract_cards :: "string list \<Rightarrow> card list option" where
  "extract_cards lines =
     (case second_loop init_xstate lines of
        None \<Rightarrow> None
      | Some st \<Rightarrow> Some (fileCards (if readBack st then appendCard st else st)))"

subsection \<open>\<^verbatim>\<open>OpenFile\<close>\<close>

text \<open>
  The file system maps a path to the content of the file there. \<open>absf\<close> is
  \<^verbatim>\<open>filepath.Abs\<close>, which depends on the working directory of the process.

  The outcome of a call that comes back: the error returned, the cards of the session after
  \<^verbatim>\<open>return nil\<close>, or the panic of a failed \<^verbatim>\<open>check\<close>. The file is rewritten
  before the second loop, so the file system of the result holds the new content also when
  the call ends in \<open>NoCardsFound\<close> or in a panic. \<open>None\<close> is the call that does not come back.
\<close>

type_synonym fs = "string \<rightharpoonup> string"

datatype outcome = Loaded "card list" | Failed error | Panic

definition OpenFile ::
  "(nat \<Rightarrow> string) \<Rightarrow> date \<Rightarrow> (string \<Rightarrow> string) \<Rightarrow> fs \<Rightarrow> nat \<Rightarrow> string \<Rightarrow> (fs \<times> nat \<times> outcome) option"
where
  "OpenFile gen today absf disk n path =
     (if path = [] then Some (disk, n, Failed NoFileSpecified)
      else if absf path = [] then Some (disk, n, Failed NoFileSpecified)
      else (case disk (absf path) of
              None \<Rightarrow> Some (disk, n, Failed FileNotFound)
            | Some data \<Rightarrow>
               (case first_loop gen today {} n (scan_lines data) of
                  None \<Rightarrow> None
                | Some (lines, ids, n') \<Rightarrow>
                    (let disk' = disk(absf path \<mapsto> join_nl lines) in
                     case extract_cards lines of
                       None \<Rightarrow> Some (disk', n', Panic)
                     | Some cs \<Rightarrow>
                         if cs = [] then Some (disk', n', Failed NoCardsFound)
                         else Some (disk', n', Loaded cs)))))"

subsection \<open>\<^verbatim>\<open>CreateCopyToShare\<close>\<close>

fun share_loop :: "(nat \<Rightarrow> string) \<Rightarrow> date \<Rightarrow> nat \<Rightarrow> string list \<Rightarrow> string list \<times> nat" where
  "share_loop gen today n [] = ([], n)"
| "share_loop gen today n (l # ls) =
     (if is_header l
      then (case initializeMetadata (gen n) today l of
              (l', _) \<Rightarrow> (case share_loop gen today (Suc n) ls of (ls', n') \<Rightarrow> (l' # ls', n')))
      else (case share_loop gen today n ls of (ls', n') \<Rightarrow> (l # ls', n')))"

text \<open>Every line is written with a newline behind it.\<close>

definition write_lines :: "string list \<Rightarrow> string" where
  "write_lines ls = concat (map (\<lambda>l. l @ [CHR 0x0A]) ls)"

definition share_path :: "string \<Rightarrow> string" where
  "share_path absPath = TrimSuffix absPath ''.md'' @ ''.share.md''"

definition CreateCopyToShare ::
  "(nat \<Rightarrow> string) \<Rightarrow> date \<Rightarrow> (string \<Rightarrow> string) \<Rightarrow> fs \<Rightarrow> nat \<Rightarrow> string \<Rightarrow> fs \<times> nat \<times> error option"
where
  "CreateCopyToShare gen today absf disk n path =
     (if path = [] then (disk, n, Some NoFileSpecified)
      else (case disk (absf path) of
              None \<Rightarrow> (disk, n, Some FileNotFound)
            | Some data \<Rightarrow>
                (case share_loop gen today n (scan_lines data) of
                   (lines, n') \<Rightarrow>
                     (disk(share_path (absf path) \<mapsto> write_lines lines), n', None))))"

subsection \<open>\<^verbatim>\<open>FindClosestDate\<close> (utils.go)\<close>

text \<open>
  The loop over the cards, with \<open>closestDate\<close> as the accumulator; \<open>today\<close> is the
  current local date at midnight UTC. The error return leaves the loop at once.
\<close>

fun closest_loop :: "date \<Rightarrow> date \<Rightarrow> card list \<Rightarrow> error + date" where
  "closest_loop today closestDate [] = Inr closestDate"
| "closest_loop today closestDate (c # cs) =
     (if Before (Due c) today \<or> Equal (Due c) today then Inl OverdueFound
      else if IsZero closestDate \<or> Before (Due c) closestDate
           then closest_loop today (Due c) cs
           else closest_loop today closestDate cs)"

definition FindClosestDate :: "date \<Rightarrow> card list \<Rightarrow> error + date" where
  "FindClosestDate today cards = closest_loop today zero_time cards"

section \<open>The metadata pattern: what it matches\<close>

lemma close_at_sound:
  "close_at s = Some r \<Longrightarrow> \<exists>ws. s = ws @ ''-->'' @ r \<and> list_all is_space ws"
proof (induction s)
  case Nil
  then show ?case by simp
next
  case (Cons c cs)
  show ?case
  proof (cases "is_space c \<and> close_at cs \<noteq> None")
    case True
    with Cons.prems have "close_at cs = Some r" by (auto simp: orelse_def)
    from Cons.IH [OF this] obtain ws where "cs = ws @ ''-->'' @ r" "list_all is_space ws" by blast
    with True have "c # cs = (c # ws) @ ''-->'' @ r \<and> list_all is_space (c # ws)" by simp
    then show ?thesis by blast
  next
    case False
    with Cons.prems have "lit ''-->'' (c # cs) = Some r"
      by (auto simp: orelse_def split: if_splits)
    then have "c # cs = [] @ ''-->'' @ r \<and> list_all is_space []" by (simp add: lit_Some_iff)
    then show ?thesis by blast
  qed
qed

lemma close_at_complete:
  "list_all is_space ws \<Longrightarrow> close_at (ws @ ''-->'' @ r) \<noteq> None"
proof (induction ws)
  case Nil
  have "lit ''-->'' (''-->'' @ r) = Some r" by (simp only: lit_Some_iff)
  then show ?case by (simp add: orelse_def is_space_def)
next
  case (Cons c ws)
  then show ?case by (auto simp: orelse_def)
qed

lemma close_at_exact: "close_at (''-->'' @ r) = Some r"
proof -
  have "lit ''-->'' (''-->'' @ r) = Some r" by (simp only: lit_Some_iff)
  then show ?thesis by (simp add: is_space_def)
qed


lemma close_at_ws: "list_all is_space ws \<Longrightarrow> close_at (ws @ ''-->'' @ r) = Some r"
proof (induction ws)
  case Nil
  show ?case using close_at_exact by simp
next
  case (Cons c ws)
  then show ?case by (simp add: orelse_def)
qed

lemma lit_None_hd: "p \<noteq> [] \<Longrightarrow> s = [] \<or> hd s \<noteq> hd p \<Longrightarrow> lit p s = None"
proof (cases "lit p s")
  case None
  then show ?thesis by simp
next
  case (Some r)
  assume "p \<noteq> []" "s = [] \<or> hd s \<noteq> hd p"
  moreover from Some have "s = p @ r" by (simp only: lit_Some_iff)
  ultimately show ?thesis by (cases p) auto
qed

lemma lit_append: "lit p (p @ r) = Some r"
  by (simp only: lit_Some_iff)

lemma hd_close_text: "list_all is_space ws \<Longrightarrow> hd (ws @ ''-->'' @ r) \<noteq> CHR '';''"
  by (cases ws) (auto simp: is_space_def)

lemma enabled_at_sound:
  assumes "enabled_at s = Some (en, r)"
  shows "\<exists>e ws. s = e @ ws @ ''-->'' @ r \<and> list_all is_space ws \<and>
           ((e = [] \<and> en = []) \<or> (e = '';true'' \<and> en = ''true'') \<or> (e = '';false'' \<and> en = ''false''))"
proof -
  from enabled_at_cases [OF assms] consider
    (t) t where "s = '';true'' @ t" "close_at t = Some r" "en = ''true''"
  | (f) t where "s = '';false'' @ t" "close_at t = Some r" "en = ''false''"
  | (n) "close_at s = Some r" "en = []" by blast
  then show ?thesis
  proof cases
    case t
    from close_at_sound [OF t(2)] obtain ws where "t = ws @ ''-->'' @ r" "list_all is_space ws" by blast
    with t show ?thesis by blast
  next
    case f
    from close_at_sound [OF f(2)] obtain ws where "t = ws @ ''-->'' @ r" "list_all is_space ws" by blast
    with f show ?thesis by blast
  next
    case n
    from close_at_sound [OF n(1)] obtain ws where "s = ws @ ''-->'' @ r" "list_all is_space ws" by blast
    with n have "s = [] @ ws @ ''-->'' @ r \<and> list_all is_space ws \<and> en = []" by simp
    then show ?thesis by blast
  qed
qed

lemma enabled_at_none_gen:
  assumes "lit '';true'' t = None" "lit '';false'' t = None" "close_at t = Some r"
  shows "enabled_at t = Some ([], r)"
  unfolding enabled_at_def using assms by (simp add: orelse_def del: close_at.simps)

lemma enabled_at_none:
  assumes "list_all is_space ws"
  shows "enabled_at (ws @ ''-->'' @ r) = Some ([], r)"
proof -
  have h: "hd (ws @ ''-->'' @ r) \<noteq> CHR '';''" using assms by (rule hd_close_text)
  have "lit '';true'' (ws @ ''-->'' @ r) = None" "lit '';false'' (ws @ ''-->'' @ r) = None"
    using h by (auto intro!: lit_None_hd)
  then show ?thesis using close_at_ws [OF assms] by (rule enabled_at_none_gen)
qed

lemma enabled_at_true_gen:
  assumes "close_at t = Some r"
  shows "enabled_at ('';true'' @ t) = Some (''true'', r)"
  unfolding enabled_at_def lit_append using assms by (simp add: orelse_def del: close_at.simps)

lemma lit_true_false: "lit '';true'' ('';false'' @ t) = None"
proof (cases "lit '';true'' ('';false'' @ t)")
  case None
  then show ?thesis .
next
  case (Some r)
  then have "'';false'' @ t = '';true'' @ r" by (simp only: lit_Some_iff)
  then show ?thesis by simp
qed

lemma enabled_at_false_gen:
  assumes "close_at t = Some r"
  shows "enabled_at ('';false'' @ t) = Some (''false'', r)"
  unfolding enabled_at_def lit_append lit_true_false using assms
  by (simp add: orelse_def del: close_at.simps)

text \<open>The text the optional group stands for.\<close>

definition en_text :: "string \<Rightarrow> string" where
  "en_text en = (if en = [] then [] else '';'' @ en)"

lemma enabled_at_exact:
  assumes "list_all is_space ws" "en \<in> {[], ''true'', ''false''}"
  shows "enabled_at (en_text en @ ws @ ''-->'' @ r) = Some (en, r)"
proof -
  from assms(2) consider "en = []" | "en = ''true''" | "en = ''false''" by blast
  then show ?thesis
  proof cases
    case 1
    then show ?thesis using enabled_at_none [OF assms(1)] by (simp add: en_text_def)
  next
    case 2
    have "enabled_at ('';true'' @ (ws @ ''-->'' @ r)) = Some (''true'', r)"
      using close_at_ws [OF assms(1)] by (rule enabled_at_true_gen)
    with 2 show ?thesis by (simp add: en_text_def)
  next
    case 3
    have "enabled_at ('';false'' @ (ws @ ''-->'' @ r)) = Some (''false'', r)"
      using close_at_ws [OF assms(1)] by (rule enabled_at_false_gen)
    with 3 show ?thesis by (simp add: en_text_def)
  qed
qed

lemma enabled_at_sound':
  assumes "enabled_at s = Some (en, r)"
  shows "\<exists>ws. s = en_text en @ ws @ ''-->'' @ r \<and> list_all is_space ws \<and>
           en \<in> {[], ''true'', ''false''}"
proof -
  from enabled_at_sound [OF assms] obtain e ws where
    h: "s = e @ ws @ ''-->'' @ r" "list_all is_space ws"
       "(e = [] \<and> en = []) \<or> (e = '';true'' \<and> en = ''true'') \<or> (e = '';false'' \<and> en = ''false'')"
    by blast
  from h(3) have "e = en_text en \<and> en \<in> {[], ''true'', ''false''}" by (auto simp: en_text_def)
  with h show ?thesis by blast
qed

text \<open>The text of a whole match, from its parts.\<close>

definition body_text :: "string \<Rightarrow> char \<Rightarrow> string \<Rightarrow> string \<Rightarrow> string \<Rightarrow> string" where
  "body_text i b d en ws = i @ [CHR '';'', b, CHR '';''] @ d @ en_text en @ ws @ ''-->''"

lemma is_date_length: "is_date d \<Longrightarrow> length d = 10"
  by (simp add: is_date_def)

lemma drop17: "drop 17 s = drop 10 (drop 7 s)"
  by simp

lemma split17:
  assumes "17 \<le> length s"
  shows "s = take 4 s @ [s ! 4, s ! 5, s ! 6] @ take 10 (drop 7 s) @ drop 17 s"
proof -
  have a: "s = take 4 s @ drop 4 s" by simp
  have b: "drop 4 s = s ! 4 # drop 5 s" using assms Cons_nth_drop_Suc [of 4 s] by simp
  have c: "drop 5 s = s ! 5 # drop 6 s" using assms Cons_nth_drop_Suc [of 5 s] by simp
  have d: "drop 6 s = s ! 6 # drop 7 s" using assms Cons_nth_drop_Suc [of 6 s] by simp
  have e: "drop 7 s = take 10 (drop 7 s) @ drop 17 s"
    by (simp only: drop17 append_take_drop_id)
  show ?thesis by (subst a, subst b, subst c, subst d, subst e) simp
qed

lemma meta_body_sound:
  assumes "meta_body s = Some m"
  shows "\<exists>b ws. s = body_text (grp1 m) b (grp3 m) (grp4 m) ws @ rest m \<and>
           length (grp1 m) = 4 \<and> CHR 0x0A \<notin> set (grp1 m) \<and> grp2 m = [b] \<and> is_digit b \<and>
           is_date (grp3 m) \<and> grp4 m \<in> {[], ''true'', ''false''} \<and> list_all is_space ws"
proof -
  from assms have c: "7 \<le> length s" "CHR 0x0A \<notin> set (take 4 s)" "s ! 4 = CHR '';''"
    "is_digit (s ! 5)" "s ! 6 = CHR '';''" "is_date (take 10 (drop 7 s))"
    unfolding meta_body_def by (auto split: if_splits)
  from assms c obtain en r where e: "enabled_at (drop 17 s) = Some (en, r)"
    and m: "m = \<lparr>grp1 = take 4 s, grp2 = [s ! 5], grp3 = take 10 (drop 7 s), grp4 = en, rest = r\<rparr>"
    unfolding meta_body_def by (auto split: if_splits option.splits)
  from c(6) have "length (take 10 (drop 7 s)) = 10" by (rule is_date_length)
  then have l: "17 \<le> length s" by simp
  from enabled_at_sound' [OF e] obtain ws where
    w: "drop 17 s = en_text en @ ws @ ''-->'' @ r" "list_all is_space ws" "en \<in> {[], ''true'', ''false''}"
    by blast
  have "s = take 4 s @ [s ! 4, s ! 5, s ! 6] @ take 10 (drop 7 s) @ drop 17 s"
    using l by (rule split17)
  then have "s = body_text (take 4 s) (s ! 5) (take 10 (drop 7 s)) en ws @ r"
    unfolding body_text_def using w(1) c(3,5) by simp
  with m c w l show ?thesis by auto
qed

lemma meta_body_exact:
  assumes "length i = 4" "CHR 0x0A \<notin> set i" "is_digit b" "is_date d"
    "en \<in> {[], ''true'', ''false''}" "list_all is_space ws"
  shows "meta_body (body_text i b d en ws @ r) =
           Some \<lparr>grp1 = i, grp2 = [b], grp3 = d, grp4 = en, rest = r\<rparr>"
proof -
  let ?s = "body_text i b d en ws @ r"
  have s: "?s = i @ [CHR '';'', b, CHR '';''] @ d @ (en_text en @ ws @ ''-->'' @ r)"
    by (simp add: body_text_def)
  have ld: "length d = 10" using assms(4) by (rule is_date_length)
  have t4: "take 4 ?s = i" unfolding s using assms(1) by simp
  have n4: "?s ! 4 = CHR '';''" unfolding s using assms(1) by (simp add: nth_append)
  have n5: "?s ! 5 = b" unfolding s using assms(1) by (simp add: nth_append)
  have n6: "?s ! 6 = CHR '';''" unfolding s using assms(1) by (simp add: nth_append)
  have d7: "drop 7 ?s = d @ (en_text en @ ws @ ''-->'' @ r)" unfolding s using assms(1) by simp
  have t10: "take 10 (drop 7 ?s) = d" unfolding d7 using ld by simp
  have "drop 17 ?s = drop 10 (drop 7 ?s)" by (rule drop17)
  also have "\<dots> = en_text en @ ws @ ''-->'' @ r" unfolding d7 using ld by simp
  finally have d17: "drop 17 ?s = en_text en @ ws @ ''-->'' @ r" .
  have e: "enabled_at (drop 17 ?s) = Some (en, r)"
    unfolding d17 using assms(6,5) by (rule enabled_at_exact)
  have len: "7 \<le> length ?s" unfolding s using assms(1) by simp
  show ?thesis
    unfolding meta_body_def using t4 n4 n5 n6 t10 e len assms(2,3,4) by simp
qed

lemma meta_ws_sound:
  "meta_ws s = Some m \<Longrightarrow> \<exists>ws u. s = ws @ u \<and> list_all is_space ws \<and> meta_body u = Some m"
proof (induction s)
  case Nil
  then have "meta_body [] = Some m" by simp
  then show ?case by (simp add: meta_body_def)
next
  case (Cons c cs)
  show ?case
  proof (cases "is_space c \<and> meta_ws cs \<noteq> None")
    case True
    with Cons.prems have "meta_ws cs = Some m" by (auto simp: orelse_def)
    from Cons.IH [OF this] obtain ws u where
      "cs = ws @ u" "list_all is_space ws" "meta_body u = Some m" by blast
    with True have "c # cs = (c # ws) @ u \<and> list_all is_space (c # ws) \<and> meta_body u = Some m"
      by simp
    then show ?thesis by blast
  next
    case False
    with Cons.prems have "meta_body (c # cs) = Some m"
      by (auto simp: orelse_def split: if_splits)
    then have "c # cs = [] @ (c # cs) \<and> list_all is_space [] \<and> meta_body (c # cs) = Some m"
      by simp
    then show ?thesis by blast
  qed
qed

lemma meta_ws_complete:
  "list_all is_space ws \<Longrightarrow> meta_body u \<noteq> None \<Longrightarrow> meta_ws (ws @ u) \<noteq> None"
proof (induction ws)
  case Nil
  then show ?case by (cases u) (auto simp: orelse_def split: option.splits)
next
  case (Cons c ws)
  then show ?case by (auto simp: orelse_def split: option.splits)
qed

lemma meta_ws_exact:
  assumes "meta_body u = Some m" "\<not> is_space (hd u)" "list_all is_space ws"
  shows "meta_ws (ws @ u) = Some m"
  using assms(3)
proof (induction ws)
  case Nil
  from assms(1) have "u \<noteq> []" by (auto simp: meta_body_def)
  with assms(1,2) show ?case by (cases u) auto
next
  case (Cons c ws)
  then show ?case by (simp add: orelse_def)
qed

text \<open>The parts of a match at the head of a text.\<close>

definition meta_parts :: "string \<Rightarrow> char \<Rightarrow> string \<Rightarrow> string \<Rightarrow> bool" where
  "meta_parts i b d en =
     (length i = 4 \<and> CHR 0x0A \<notin> set i \<and> is_digit b \<and> is_date d \<and> en \<in> {[], ''true'', ''false''})"

lemma meta_at_sound:
  assumes "meta_at s = Some m"
  shows "\<exists>ws0 b ws. s = ''<!--'' @ ws0 @ body_text (grp1 m) b (grp3 m) (grp4 m) ws @ rest m \<and>
           list_all is_space ws0 \<and> list_all is_space ws \<and> grp2 m = [b] \<and>
           meta_parts (grp1 m) b (grp3 m) (grp4 m)"
proof -
  from assms obtain t where t: "lit ''<!--'' s = Some t" "meta_ws t = Some m"
    unfolding meta_at_def by (auto split: option.splits)
  from t(1) have s: "s = ''<!--'' @ t" by (simp only: lit_Some_iff)
  from meta_ws_sound [OF t(2)] obtain ws0 u where
    u: "t = ws0 @ u" "list_all is_space ws0" "meta_body u = Some m" by blast
  from meta_body_sound [OF u(3)] obtain b ws where
    b: "u = body_text (grp1 m) b (grp3 m) (grp4 m) ws @ rest m"
       "length (grp1 m) = 4" "CHR 0x0A \<notin> set (grp1 m)" "grp2 m = [b]" "is_digit b"
       "is_date (grp3 m)" "grp4 m \<in> {[], ''true'', ''false''}" "list_all is_space ws" by blast
  have "s = ''<!--'' @ ws0 @ body_text (grp1 m) b (grp3 m) (grp4 m) ws @ rest m"
    using s u(1) b(1) by simp
  with u(2) b show ?thesis unfolding meta_parts_def by blast
qed

lemma meta_at_complete:
  assumes "meta_parts i b d en" "list_all is_space ws0" "list_all is_space ws"
  shows "meta_at (''<!--'' @ ws0 @ body_text i b d en ws @ r) \<noteq> None"
proof -
  have "meta_body (body_text i b d en ws @ r) \<noteq> None"
    using assms(1,3) meta_body_exact [of i b d en ws r] by (simp add: meta_parts_def)
  with assms(2) have "meta_ws (ws0 @ body_text i b d en ws @ r) \<noteq> None"
    by (rule meta_ws_complete)
  then show ?thesis unfolding meta_at_def lit_append by simp
qed

lemma meta_at_exact:
  assumes "meta_parts i b d en" "list_all is_space ws0" "list_all is_space ws" "\<not> is_space (hd i)"
  shows "meta_at (''<!--'' @ ws0 @ body_text i b d en ws @ r) =
           Some \<lparr>grp1 = i, grp2 = [b], grp3 = d, grp4 = en, rest = r\<rparr>"
proof -
  let ?m = "\<lparr>grp1 = i, grp2 = [b], grp3 = d, grp4 = en, rest = r\<rparr>"
  have mb: "meta_body (body_text i b d en ws @ r) = Some ?m"
    using assms(1,3) meta_body_exact [of i b d en ws r] by (simp add: meta_parts_def)
  from assms(1) have "i \<noteq> []" by (auto simp: meta_parts_def)
  then have "hd (body_text i b d en ws @ r) = hd i" by (simp add: body_text_def)
  with assms(4) have "\<not> is_space (hd (body_text i b d en ws @ r))" by simp
  with mb have "meta_ws (ws0 @ body_text i b d en ws @ r) = Some ?m"
    using assms(2) by (rule meta_ws_exact)
  then show ?thesis unfolding meta_at_def lit_append by simp
qed

text \<open>No match begins inside \<open>pre\<close> when \<open>t\<close> follows it.\<close>

fun clear_before :: "string \<Rightarrow> string \<Rightarrow> bool" where
  "clear_before [] t = True"
| "clear_before (c # cs) t = (meta_at (c # cs @ t) = None \<and> clear_before cs t)"

lemma find_meta_skip: "clear_before pre t \<Longrightarrow> find_meta (pre @ t) = find_meta t"
  by (induction pre) (auto simp: orelse_def)

lemma find_meta_head: "meta_at t = Some m \<Longrightarrow> find_meta t = Some m"
  by (cases t) (auto simp: orelse_def meta_at_def lit_Some_iff split: option.splits)

lemma find_meta_sound:
  "find_meta s = Some m \<Longrightarrow> \<exists>pre t. s = pre @ t \<and> clear_before pre t \<and> meta_at t = Some m"
proof (induction s)
  case Nil
  then show ?case by simp
next
  case (Cons c cs)
  show ?case
  proof (cases "meta_at (c # cs)")
    case None
    with Cons.prems have "find_meta cs = Some m" by (simp add: orelse_def)
    from Cons.IH [OF this] obtain pre t where
      "cs = pre @ t" "clear_before pre t" "meta_at t = Some m" by blast
    with None have "c # cs = (c # pre) @ t \<and> clear_before (c # pre) t \<and> meta_at t = Some m"
      by simp
    then show ?thesis by blast
  next
    case (Some m')
    with Cons.prems have "m' = m" by (simp add: orelse_def)
    with Some have "c # cs = [] @ (c # cs) \<and> clear_before [] (c # cs) \<and> meta_at (c # cs) = Some m"
      by simp
    then show ?thesis by blast
  qed
qed

lemma replace_meta_skip:
  "clear_before pre t \<Longrightarrow> replace_meta rep (pre @ t) = pre @ replace_meta rep t"
  by (induction pre) auto

lemma replace_meta_head:
  assumes "meta_at t = Some m"
  shows "replace_meta rep t = rep @ replace_meta rep (rest m)"
proof (cases t)
  case Nil
  with assms show ?thesis by (simp add: meta_at_def lit_Some_iff split: option.splits)
next
  case (Cons c cs)
  with assms show ?thesis by simp
qed

lemma meta_at_hd: "meta_at s = Some m \<Longrightarrow> s \<noteq> [] \<and> hd s = CHR ''<''"
  by (auto simp: meta_at_def lit_Some_iff split: option.splits)

lemma clear_before_no_lt: "CHR ''<'' \<notin> set pre \<Longrightarrow> clear_before pre t"
proof (induction pre)
  case Nil
  then show ?case by simp
next
  case (Cons c cs)
  have "meta_at (c # cs @ t) = None"
  proof (cases "meta_at (c # cs @ t)")
    case None
    then show ?thesis .
  next
    case (Some m)
    from meta_at_hd [OF this] Cons.prems show ?thesis by simp
  qed
  with Cons show ?case by simp
qed

lemma is_date_chars:
  assumes "is_date d" "c \<in> set d"
  shows "is_digit c \<or> c = CHR ''-''"
proof -
  from assms(2) obtain k where k: "k < length d" "d ! k = c" by (auto simp: in_set_conv_nth)
  from assms(1) have l: "length d = 10" and
    a: "\<forall>n < 4. is_digit (d ! n)" and b: "d ! 4 = CHR ''-''" and
    c: "\<forall>n < 2. is_digit (d ! (5 + n))" and e: "d ! 7 = CHR ''-''" and
    f: "\<forall>n < 2. is_digit (d ! (8 + n))"
    by (auto simp: is_date_def list_all_length)
  from k l consider "k < 4" | "k = 4" | "k = 5" | "k = 6" | "k = 7" | "k = 8" | "k = 9" by linarith
  then show ?thesis
  proof cases
    case 1 with a k show ?thesis by blast
  next
    case 2 with b k show ?thesis by blast
  next
    case 3 with c [rule_format, of 0] k show ?thesis by simp
  next
    case 4 with c [rule_format, of 1] k show ?thesis by simp
  next
    case 5 with e k show ?thesis by blast
  next
    case 6 with f [rule_format, of 0] k show ?thesis by simp
  next
    case 7 with f [rule_format, of 1] k show ?thesis by simp
  qed
qed

lemma is_digit_not_lt: "is_digit c \<Longrightarrow> c \<noteq> CHR ''<'' \<and> c \<noteq> CHR 0x0A \<and> \<not> is_space c"
  by (auto simp: is_digit_def is_space_def)

lemma spaces_not_lt: "list_all is_space ws \<Longrightarrow> CHR ''<'' \<notin> set ws"
  by (induction ws) (auto simp: is_space_def)

text \<open>What follows the identifier in a match.\<close>

definition tail_text :: "char \<Rightarrow> string \<Rightarrow> string \<Rightarrow> string \<Rightarrow> string" where
  "tail_text b d en ws = [CHR '';'', b, CHR '';''] @ d @ en_text en @ ws @ ''-->''"

lemma body_text_tail: "body_text i b d en ws = i @ tail_text b d en ws"
  by (simp add: body_text_def tail_text_def)

lemma tail_text_no_lt:
  assumes "is_digit b" "is_date d" "en \<in> {[], ''true'', ''false''}" "list_all is_space ws"
  shows "CHR ''<'' \<notin> set (tail_text b d en ws)"
proof -
  have "CHR ''<'' \<notin> set d" using is_date_chars [OF assms(2)] is_digit_not_lt by fastforce
  moreover have "CHR ''<'' \<notin> set (en_text en)" using assms(3) by (auto simp: en_text_def)
  moreover have "CHR ''<'' \<notin> set ws" using assms(4) by (rule spaces_not_lt)
  moreover have "b \<noteq> CHR ''<''" using assms(1) is_digit_not_lt by blast
  ultimately show ?thesis by (simp add: tail_text_def)
qed

lemma tail_text_hd: "tail_text b d en ws ! 0 = CHR '';'' \<and> tail_text b d en ws \<noteq> []"
  by (simp add: tail_text_def)

lemma append_eq_split:
  assumes "p @ B = W @ R" "length W \<le> length p"
  shows "\<exists>z. p = W @ z \<and> R = z @ B"
  using assms by (metis append_eq_append_conv_if append_take_drop_id)

lemma barrier_core:
  assumes s: "p @ B = A @ i @ T @ R" and li: "length i = 4"
    and T: "T \<noteq> []" "T ! 0 = CHR '';''" "CHR ''<'' \<notin> set T"
    and A: "\<forall>k < length A. 0 < k \<longrightarrow> A ! k \<noteq> CHR ''<''"
    and p: "p \<noteq> []"
    and B: "5 \<le> length B" "B ! 0 = CHR ''<''" "\<forall>j. 1 \<le> j \<and> j \<le> 4 \<longrightarrow> B ! j \<noteq> CHR '';''"
  shows "length (A @ i @ T) \<le> length p"
proof (rule ccontr)
  let ?P = "length p"
  let ?W = "A @ i @ T"
  have SB: "\<And>j. (p @ B) ! (?P + j) = B ! j" by (simp add: nth_append)
  have SW: "\<And>k. k < length ?W \<Longrightarrow> (p @ B) ! k = ?W ! k"
  proof -
    fix k assume "k < length ?W"
    then have "(?W @ R) ! k = ?W ! k" by (simp only: nth_append if_True)
    then show "(p @ B) ! k = ?W ! k" using s by simp
  qed
  assume "\<not> length ?W \<le> ?P"
  then have lt: "?P < length ?W" by simp
  have W_lt: "?W ! ?P = CHR ''<''" using SW [OF lt] SB [of 0] B(2) by simp
  consider "?P < length A" | "length A \<le> ?P" "?P < length A + 4" | "length A + 4 \<le> ?P"
    by linarith
  then show False
  proof cases
    case 1
    then have "?W ! ?P = A ! ?P" by (simp add: nth_append)
    moreover have "0 < ?P" using p by simp
    ultimately show False using A 1 W_lt by auto
  next
    case 2
    let ?j = "length A + 4 - ?P"
    have j: "1 \<le> ?j \<and> ?j \<le> 4" using 2 by auto
    have "length A + 4 < length ?W" using T(1) li by simp
    then have "(p @ B) ! (length A + 4) = ?W ! (length A + 4)" by (rule SW)
    also have "\<dots> = T ! 0" using li by (simp add: nth_append)
    finally have semi: "(p @ B) ! (length A + 4) = CHR '';''" using T(2) by simp
    have "length A + 4 = ?P + ?j" using 2 by simp
    then have "(p @ B) ! (length A + 4) = B ! ?j" using SB [of ?j] by simp
    with semi have "B ! ?j = CHR '';''" by simp
    with j B(3) show False by blast
  next
    case 3
    then have "\<not> ?P < length A" "\<not> ?P - length A < length i" using li by auto
    then have "?W ! ?P = T ! (?P - length A - length i)" by (simp only: nth_append if_False)
    then have "?W ! ?P = T ! (?P - length A - 4)" using li by simp
    moreover have "?P - length A - 4 < length T" using lt 3 li by simp
    ultimately have "CHR ''<'' \<in> set T" using W_lt by (metis nth_mem)
    with T(3) show False by simp
  qed
qed

lemma nth_app_right: "length a \<le> k \<Longrightarrow> (a @ w) ! k = w ! (k - length a)"
  by (simp add: nth_append)

lemma open_ws_no_lt:
  assumes "list_all is_space ws0" "k < length (''<!--'' @ ws0)" "0 < k"
  shows "(''<!--'' @ ws0) ! k \<noteq> CHR ''<''"
proof (cases "k < 4")
  case True
  with assms(3) have "k = 1 \<or> k = 2 \<or> k = 3" by auto
  then show ?thesis by auto
next
  case False
  then have "(''<!--'' @ ws0) ! k = ws0 ! (k - 4)"
    using nth_app_right [of "''<!--''" k ws0] by (simp add: eval_nat_numeral)
  moreover have "k - 4 < length ws0" using False assms(2) by simp
  ultimately show ?thesis using assms(1) spaces_not_lt by (metis nth_mem)
qed

lemma open_block_nth:
  assumes "X \<noteq> []" "hd X \<noteq> CHR '';''" "1 \<le> j \<and> j \<le> 4"
  shows "(''<!--'' @ X) ! j \<noteq> CHR '';''"
proof -
  from assms(3) consider "j = 1" | "j = 2" | "j = 3" | "j = 4" by linarith
  then show ?thesis using assms(1,2) by cases (auto simp: hd_conv_nth)
qed

lemma barrier:
  assumes m: "meta_at (p @ ''<!--'' @ X) = Some m" and p: "p \<noteq> []"
    and X: "X \<noteq> []" "hd X \<noteq> CHR '';''"
  shows "\<exists>z. rest m = z @ ''<!--'' @ X"
proof -
  let ?B = "''<!--'' @ X"
  from meta_at_sound [OF m] obtain ws0 b ws where
    s: "p @ ?B = ''<!--'' @ ws0 @ body_text (grp1 m) b (grp3 m) (grp4 m) ws @ rest m"
    and w: "list_all is_space ws0" "list_all is_space ws"
    and mp: "meta_parts (grp1 m) b (grp3 m) (grp4 m)" by blast
  let ?A = "''<!--'' @ ws0"
  let ?T = "tail_text b (grp3 m) (grp4 m) ws"
  have s': "p @ ?B = ?A @ grp1 m @ ?T @ rest m" using s by (simp add: body_text_tail)
  have li: "length (grp1 m) = 4" using mp by (simp add: meta_parts_def)
  have nolt: "CHR ''<'' \<notin> set ?T"
    using mp w(2) by (intro tail_text_no_lt) (auto simp: meta_parts_def)
  have T: "?T \<noteq> []" "?T ! 0 = CHR '';''" using tail_text_hd by auto
  have A: "\<forall>k < length ?A. 0 < k \<longrightarrow> ?A ! k \<noteq> CHR ''<''"
    using open_ws_no_lt [OF w(1)] by blast
  have B: "5 \<le> length ?B" "?B ! 0 = CHR ''<''" "\<forall>j. 1 \<le> j \<and> j \<le> 4 \<longrightarrow> ?B ! j \<noteq> CHR '';''"
    using X open_block_nth [OF X] by (cases X, auto)
  have "length (?A @ grp1 m @ ?T) \<le> length p"
    using s' li T nolt A p B by (rule barrier_core)
  moreover have "p @ ?B = (?A @ grp1 m @ ?T) @ rest m" using s' by simp
  ultimately show ?thesis using append_eq_split [of p ?B "?A @ grp1 m @ ?T" "rest m"] by blast
qed

lemma alphabet_chars:
  assumes "c \<in> set alphabet"
  shows "c \<noteq> CHR '';''" "c \<noteq> CHR ''<''" "c \<noteq> CHR 0x0A" "\<not> is_space c" "c \<noteq> CHR ''$''"
    "c \<noteq> CHR ''-''" "c \<noteq> CHR ''>''"
  using assms unfolding alphabet_def is_space_def by auto

lemma valid_id_facts:
  assumes "valid_id i"
  shows "length i = 4" "i \<noteq> []" "CHR 0x0A \<notin> set i" "\<not> is_space (hd i)" "hd i \<noteq> CHR '';''"
    "CHR ''<'' \<notin> set i"
proof -
  from assms have l: "length i = 4" and a: "\<forall>c \<in> set i. c \<in> set alphabet"
    by (auto simp: valid_id_def list_all_iff)
  from l show "length i = 4" .
  from l show ne: "i \<noteq> []" by auto
  from a show "CHR 0x0A \<notin> set i" using alphabet_chars(3) by blast
  from a show "CHR ''<'' \<notin> set i" using alphabet_chars(2) by blast
  from ne a have "hd i \<in> set alphabet" by simp
  then show "\<not> is_space (hd i)" "hd i \<noteq> CHR '';''" using alphabet_chars by blast+
qed

text \<open>A match that meets an opening tag and an identifier ends before them.\<close>

lemma meta_within:
  assumes m: "meta_at (q @ ''<!--'' @ X) = Some m" and q: "q \<noteq> []"
    and X: "X \<noteq> []" "hd X \<noteq> CHR '';''"
  shows "meta_at (q @ t) \<noteq> None"
proof -
  let ?B = "''<!--'' @ X"
  from barrier [OF m q X] obtain z where z: "rest m = z @ ?B" by blast
  from meta_at_sound [OF m] obtain ws0 b ws where
    s: "q @ ?B = ''<!--'' @ ws0 @ body_text (grp1 m) b (grp3 m) (grp4 m) ws @ rest m"
    and w: "list_all is_space ws0" "list_all is_space ws"
    and mp: "meta_parts (grp1 m) b (grp3 m) (grp4 m)" by blast
  let ?W = "''<!--'' @ ws0 @ body_text (grp1 m) b (grp3 m) (grp4 m) ws"
  from s z have "q @ ?B = (?W @ z) @ ?B" by simp
  then have "q = ?W @ z" by (simp only: append_same_eq)
  then have "q @ t = ''<!--'' @ ws0 @ body_text (grp1 m) b (grp3 m) (grp4 m) ws @ (z @ t)"
    by simp
  then show ?thesis using meta_at_complete [OF mp w] by simp
qed

lemma clear_before_transfer:
  assumes "clear_before pre t" "X \<noteq> []" "hd X \<noteq> CHR '';''"
  shows "clear_before pre (''<!--'' @ X)"
  using assms(1)
proof (induction pre)
  case Nil
  then show ?case by simp
next
  case (Cons c cs)
  then have n: "meta_at ((c # cs) @ t) = None" and r: "clear_before cs (''<!--'' @ X)" by auto
  have "meta_at ((c # cs) @ ''<!--'' @ X) = None"
  proof (cases "meta_at ((c # cs) @ ''<!--'' @ X)")
    case None
    then show ?thesis .
  next
    case (Some m)
    from meta_within [OF Some _ assms(2,3), of t] n show ?thesis by simp
  qed
  with r show ?case by simp
qed

text \<open>The replacement text that \<^verbatim>\<open>generateNewId\<close> builds from a match.\<close>

definition updated_text :: "string \<Rightarrow> meta_match \<Rightarrow> string" where
  "updated_text newid m =
     (let updated = ''<!--'' @ newid @ '';'' @ grp2 m @ '';'' @ grp3 m;
          updated = (if grp4 m \<noteq> [] then updated @ '';'' @ grp4 m else updated)
      in updated @ ''-->'')"

lemma generateNewId_match:
  "find_meta line = Some m \<Longrightarrow>
   generateNewId newid today line = (replace_meta (updated_text newid m) line, newid)"
  by (simp add: generateNewId_def updated_text_def Let_def)

lemma updated_text_eq:
  "grp2 m = [b] \<Longrightarrow> updated_text newid m = ''<!--'' @ body_text newid b (grp3 m) (grp4 m) []"
  by (simp add: updated_text_def body_text_def en_text_def Let_def)

lemma generateNewId_line:
  assumes f: "find_meta line = Some m" and v: "valid_id newid"
  shows "\<exists>pre t X. line = pre @ t \<and> clear_before pre t \<and> meta_at t = Some m \<and>
           fst (generateNewId newid today line) = pre @ updated_text newid m @ X \<and>
           X = replace_meta (updated_text newid m) (rest m) \<and>
           find_meta (pre @ updated_text newid m @ X) =
             Some \<lparr>grp1 = newid, grp2 = grp2 m, grp3 = grp3 m, grp4 = grp4 m, rest = X\<rparr>"
proof -
  from find_meta_sound [OF f] obtain pre t where
    l: "line = pre @ t" and c: "clear_before pre t" and t: "meta_at t = Some m" by blast
  from meta_at_sound [OF t] obtain b where
    b: "grp2 m = [b]" and mp: "meta_parts (grp1 m) b (grp3 m) (grp4 m)" by blast
  let ?u = "updated_text newid m"
  let ?X = "replace_meta ?u (rest m)"
  let ?Y = "body_text newid b (grp3 m) (grp4 m) [] @ ?X"
  have u: "?u @ ?X = ''<!--'' @ ?Y" using updated_text_eq [OF b] by simp
  have Y: "?Y \<noteq> []" "hd ?Y \<noteq> CHR '';''"
    using valid_id_facts [OF v] by (auto simp: body_text_def)
  have g: "fst (generateNewId newid today line) = pre @ ?u @ ?X"
    using generateNewId_match [OF f] l replace_meta_skip [OF c] replace_meta_head [OF t]
    by simp
  have mp': "meta_parts newid b (grp3 m) (grp4 m)"
    using mp valid_id_facts [OF v] by (simp add: meta_parts_def)
  have "meta_at (''<!--'' @ [] @ ?Y) =
          Some \<lparr>grp1 = newid, grp2 = [b], grp3 = grp3 m, grp4 = grp4 m, rest = ?X\<rparr>"
    using mp' valid_id_facts(4) [OF v] by (intro meta_at_exact) auto
  then have h: "meta_at (?u @ ?X) =
          Some \<lparr>grp1 = newid, grp2 = grp2 m, grp3 = grp3 m, grp4 = grp4 m, rest = ?X\<rparr>"
    using u b by simp
  have "clear_before pre (''<!--'' @ ?Y)" using c Y by (rule clear_before_transfer)
  then have "find_meta (pre @ ?u @ ?X) = find_meta (?u @ ?X)"
    using u find_meta_skip by metis
  with h have "find_meta (pre @ ?u @ ?X) =
      Some \<lparr>grp1 = newid, grp2 = grp2 m, grp3 = grp3 m, grp4 = grp4 m, rest = ?X\<rparr>"
    using find_meta_head by simp
  with l c t g show ?thesis by blast
qed

lemma find_meta_no_lt: "CHR ''<'' \<notin> set s \<Longrightarrow> find_meta s = None"
  using find_meta_skip [OF clear_before_no_lt, of s "[]"] by simp

lemma replace_meta_no_lt: "CHR ''<'' \<notin> set s \<Longrightarrow> replace_meta rep s = s"
  using replace_meta_skip [OF clear_before_no_lt, where pre = s and t = "[]" and rep = rep] by simp

lemma getMetadata_None: "find_meta line = None \<Longrightarrow> getMetadata line = ([], [], [], True)"
  by (simp add: getMetadata_def)

lemma getMetadata_Some:
  assumes "find_meta line = Some m"
  shows "getMetadata line = (grp1 m, grp2 m, grp3 m, grp4 m \<noteq> ''false'')"
proof -
  from find_meta_sound [OF assms] obtain pre t where "meta_at t = Some m" by blast
  from meta_at_sound [OF this] have "grp4 m \<in> {[], ''true'', ''false''}"
    by (auto simp: meta_parts_def)
  then show ?thesis using assms by (auto simp: getMetadata_def)
qed

lemma getMetadata_id_iff: "fst (getMetadata line) \<noteq> [] \<longleftrightarrow> find_meta line \<noteq> None"
proof (cases "find_meta line")
  case None
  then show ?thesis by (simp add: getMetadata_None)
next
  case (Some m)
  from find_meta_sound [OF Some] obtain pre t where "meta_at t = Some m" by blast
  from meta_at_sound [OF this] have "length (grp1 m) = 4" by (auto simp: meta_parts_def)
  then have "grp1 m \<noteq> []" by auto
  with Some show ?thesis by (simp add: getMetadata_Some)
qed

lemma generateNewId_decode:
  assumes "fst (getMetadata line) \<noteq> []" "valid_id newid"
  shows "getMetadata (fst (generateNewId newid today line)) = (newid, snd (getMetadata line))"
    and "snd (generateNewId newid today line) = newid"
proof -
  from assms(1) obtain m where f: "find_meta line = Some m" using getMetadata_id_iff by blast
  from generateNewId_line [OF f assms(2), of today] obtain pre X where
    g: "fst (generateNewId newid today line) = pre @ updated_text newid m @ X"
    and h: "find_meta (pre @ updated_text newid m @ X) =
             Some \<lparr>grp1 = newid, grp2 = grp2 m, grp3 = grp3 m, grp4 = grp4 m, rest = X\<rparr>"
    by blast
  show "getMetadata (fst (generateNewId newid today line)) = (newid, snd (getMetadata line))"
    unfolding g using getMetadata_Some [OF h] getMetadata_Some [OF f] by simp
  show "snd (generateNewId newid today line) = newid"
    using generateNewId_match [OF f] by simp
qed

lemma replace_meta_none: "find_meta s = None \<Longrightarrow> replace_meta rep s = s"
proof (induction s)
  case Nil
  then show ?case by simp
next
  case (Cons c cs)
  then have "meta_at (c # cs) = None" "find_meta cs = None"
    by (auto simp: orelse_def split: option.splits)
  with Cons.IH show ?case by simp
qed

section \<open>Stripping comments and fresh metadata\<close>

text \<open>The text holds a closing tag.\<close>

fun has_close :: "string \<Rightarrow> bool" where
  "has_close [] = False"
| "has_close (c # cs) = (lit ''-->'' (c # cs) \<noteq> None \<or> has_close cs)"

text \<open>No position of the text begins a comment \<^verbatim>\<open><!--.*-->\<close>.\<close>

fun no_comment :: "string \<Rightarrow> bool" where
  "no_comment [] = True"
| "no_comment (c # cs) = (comment_at (c # cs) = None \<and> no_comment cs)"

lemma has_close_append: "has_close b \<Longrightarrow> has_close (a @ b)"
  by (induction a) auto

lemma has_close_lit: "has_close (''-->'' @ r)"
proof -
  have "lit ''-->'' (''-->'' @ r) \<noteq> None" by (simp only: lit_append) simp
  then show ?thesis by simp
qed

lemma dotstar_close_sound: "dotstar_close s = Some r \<Longrightarrow> \<exists>u. s = u @ ''-->'' @ r"
proof (induction s)
  case Nil
  then show ?case by simp
next
  case (Cons c cs)
  show ?case
  proof (cases "c \<noteq> CHR 0x0A \<and> dotstar_close cs \<noteq> None")
    case True
    with Cons.prems have "dotstar_close cs = Some r" by (auto simp: orelse_def)
    from Cons.IH [OF this] obtain u where "cs = u @ ''-->'' @ r" by blast
    then have "c # cs = (c # u) @ ''-->'' @ r" by simp
    then show ?thesis by blast
  next
    case False
    with Cons.prems have "lit ''-->'' (c # cs) = Some r"
      by (auto simp: orelse_def split: if_splits)
    then have "c # cs = [] @ ''-->'' @ r" by (simp add: lit_Some_iff)
    then show ?thesis by blast
  qed
qed

lemma dotstar_close_has_close: "dotstar_close s = Some r \<Longrightarrow> has_close s"
  using dotstar_close_sound has_close_append has_close_lit by metis

lemma dotstar_close_complete:
  "has_close s \<Longrightarrow> CHR 0x0A \<notin> set s \<Longrightarrow> dotstar_close s \<noteq> None"
proof (induction s)
  case Nil
  then show ?case by simp
next
  case (Cons c cs)
  show ?case
  proof (cases "has_close cs")
    case True
    with Cons have "dotstar_close cs \<noteq> None" by simp
    with Cons.prems show ?thesis by (auto simp: orelse_def)
  next
    case False
    with Cons.prems have "lit ''-->'' (c # cs) \<noteq> None" by simp
    then show ?thesis by (auto simp: orelse_def split: option.splits)
  qed
qed

lemma dotstar_close_greedy:
  "dotstar_close s = Some r \<Longrightarrow> CHR 0x0A \<notin> set s \<Longrightarrow> \<not> has_close r"
proof (induction s)
  case Nil
  then show ?case by simp
next
  case (Cons c cs)
  show ?case
  proof (cases "dotstar_close cs")
    case (Some r')
    with Cons.prems have "r' = r" by (auto simp: orelse_def)
    with Some Cons show ?thesis by simp
  next
    case None
    with Cons.prems have "lit ''-->'' (c # cs) = Some r" by (auto simp: orelse_def)
    then have e: "c # cs = ''-->'' @ r" by (simp only: lit_Some_iff)
    show ?thesis
    proof
      assume "has_close r"
      then have "has_close (''->'' @ r)" by (rule has_close_append)
      moreover from e have "cs = ''->'' @ r" by simp
      ultimately have "has_close cs" by simp
      then have "dotstar_close cs \<noteq> None" using Cons.prems(2) by (intro dotstar_close_complete) auto
      with None show False by simp
    qed
  qed
qed

lemma comment_at_Some_iff:
  "comment_at s = Some r \<longleftrightarrow> (\<exists>x. s = ''<!--'' @ x \<and> dotstar_close x = Some r)"
proof
  assume "comment_at s = Some r"
  then show "\<exists>x. s = ''<!--'' @ x \<and> dotstar_close x = Some r"
    unfolding comment_at_def
    by (auto split: option.splits simp: lit_Some_iff simp del: dotstar_close.simps)
next
  assume "\<exists>x. s = ''<!--'' @ x \<and> dotstar_close x = Some r"
  then obtain x where x: "s = ''<!--'' @ x" "dotstar_close x = Some r" by blast
  show "comment_at s = Some r" unfolding x(1) comment_at_def lit_append using x(2) by simp
qed

lemma strip_at_sound:
  "strip_at s = Some r \<Longrightarrow> \<exists>sp t. s = sp @ t \<and> list_all is_space sp \<and> comment_at t = Some r"
proof (induction s)
  case Nil
  then show ?case by (simp add: comment_at_def lit_def)
next
  case (Cons c cs)
  show ?case
  proof (cases "is_space c \<and> strip_at cs \<noteq> None")
    case True
    with Cons.prems have "strip_at cs = Some r" by (auto simp: orelse_def)
    from Cons.IH [OF this] obtain sp t where
      "cs = sp @ t" "list_all is_space sp" "comment_at t = Some r" by blast
    with True have "c # cs = (c # sp) @ t \<and> list_all is_space (c # sp) \<and> comment_at t = Some r"
      by simp
    then show ?thesis by blast
  next
    case False
    with Cons.prems have "comment_at (c # cs) = Some r"
      by (auto simp: orelse_def split: if_splits)
    then have "c # cs = [] @ (c # cs) \<and> list_all is_space [] \<and> comment_at (c # cs) = Some r"
      by simp
    then show ?thesis by blast
  qed
qed

lemma strip_at_no_space: "\<not> is_space (hd s) \<Longrightarrow> strip_at s = comment_at s"
  by (cases s) auto

lemma no_comment_append: "no_comment (a @ b) \<Longrightarrow> no_comment b"
  by (induction a) auto

lemma no_comment_hd: "no_comment s \<Longrightarrow> comment_at s = None"
  by (cases s) (auto simp: comment_at_def lit_Some_iff split: option.splits)

lemma no_comment_strip_at: "no_comment s \<Longrightarrow> strip_at s = None"
proof (cases "strip_at s")
  case None
  then show ?thesis by simp
next
  case (Some r)
  assume n: "no_comment s"
  from strip_at_sound [OF Some] obtain sp t where "s = sp @ t" "comment_at t = Some r" by blast
  with n no_comment_append [of sp t] no_comment_hd [of t] show ?thesis by simp
qed

lemma no_comment_strip: "no_comment s \<Longrightarrow> strip_comments s = s"
proof (induction s)
  case Nil
  then show ?case by simp
next
  case (Cons c cs)
  then have "strip_at (c # cs) = None" by (intro no_comment_strip_at)
  with Cons show ?case by simp
qed

lemma no_close_no_comment: "\<not> has_close s \<Longrightarrow> no_comment s"
proof (induction s)
  case Nil
  then show ?case by simp
next
  case (Cons c cs)
  have "comment_at (c # cs) = None"
  proof (cases "comment_at (c # cs)")
    case None
    then show ?thesis .
  next
    case (Some r)
    then obtain x where "c # cs = ''<!--'' @ x" "dotstar_close x = Some r"
      unfolding comment_at_Some_iff by blast
    then have "has_close (c # cs)"
      using dotstar_close_has_close has_close_append by metis
    with Cons.prems show ?thesis by simp
  qed
  with Cons show ?case by simp
qed

lemma strip_at_suffix: "strip_at s = Some r \<Longrightarrow> \<exists>u. s = u @ r"
proof -
  assume "strip_at s = Some r"
  from strip_at_sound [OF this] obtain sp t where s: "s = sp @ t" "comment_at t = Some r" by blast
  then obtain x where x: "t = ''<!--'' @ x" "dotstar_close x = Some r"
    unfolding comment_at_Some_iff by blast
  from dotstar_close_sound [OF x(2)] obtain u where "x = u @ ''-->'' @ r" by blast
  with s x have "s = (sp @ ''<!--'' @ u @ ''-->'') @ r" by simp
  then show ?thesis by blast
qed

lemma strip_at_greedy:
  assumes "strip_at s = Some r" "CHR 0x0A \<notin> set s"
  shows "\<not> has_close r"
proof -
  from strip_at_sound [OF assms(1)] obtain sp t where s: "s = sp @ t" "comment_at t = Some r"
    by blast
  then obtain x where x: "t = ''<!--'' @ x" "dotstar_close x = Some r"
    unfolding comment_at_Some_iff by blast
  have "CHR 0x0A \<notin> set x" using assms(2) s(1) x(1) by simp
  with x(2) show ?thesis by (rule dotstar_close_greedy)
qed

lemma strip_at_has_close: "strip_at s = Some r \<Longrightarrow> has_close s"
proof -
  assume "strip_at s = Some r"
  from strip_at_sound [OF this] obtain sp t where s: "s = sp @ t" "comment_at t = Some r" by blast
  then obtain x where x: "t = ''<!--'' @ x" "dotstar_close x = Some r"
    unfolding comment_at_Some_iff by blast
  have "has_close x" using x(2) by (rule dotstar_close_has_close)
  then have "has_close (sp @ ''<!--'' @ x)" using has_close_append by (metis append_assoc)
  with s x show ?thesis by simp
qed

text \<open>The shape of a stripped line: the line itself, or the text before the first comment
  and the text behind the last closing tag.\<close>

lemma strip_comments_shape:
  "CHR 0x0A \<notin> set s \<Longrightarrow>
   strip_comments s = s \<or>
   (\<exists>pre t post. s = pre @ t \<and> strip_at t = Some post \<and> \<not> has_close post \<and>
      strip_comments s = pre @ post)"
proof (induction s rule: strip_comments.induct)
  case 1
  then show ?case by simp
next
  case (2 c cs)
  show ?case
  proof (cases "strip_at (c # cs)")
    case None
    from "2.prems" have nl: "CHR 0x0A \<notin> set cs" by simp
    from "2.IH"(1) [OF None nl] have
      "strip_comments cs = cs \<or>
       (\<exists>pre t post. cs = pre @ t \<and> strip_at t = Some post \<and> \<not> has_close post \<and>
          strip_comments cs = pre @ post)" .
    then show ?thesis
    proof
      assume "strip_comments cs = cs"
      with None show ?thesis by (simp del: strip_at.simps)
    next
      assume "\<exists>pre t post. cs = pre @ t \<and> strip_at t = Some post \<and> \<not> has_close post \<and>
          strip_comments cs = pre @ post"
      then obtain pre t post where
        h: "cs = pre @ t" "strip_at t = Some post" "\<not> has_close post" "strip_comments cs = pre @ post"
        by blast
      with None have "c # cs = (c # pre) @ t \<and> strip_at t = Some post \<and> \<not> has_close post \<and>
          strip_comments (c # cs) = (c # pre) @ post" by (simp del: strip_at.simps)
      then show ?thesis by blast
    qed
  next
    case (Some r)
    have nc: "\<not> has_close r" using Some "2.prems" by (rule strip_at_greedy)
    then have "strip_comments r = r" using no_close_no_comment no_comment_strip by blast
    with Some nc have "c # cs = [] @ (c # cs) \<and> strip_at (c # cs) = Some r \<and> \<not> has_close r \<and>
          strip_comments (c # cs) = [] @ r" by (simp del: strip_at.simps)
    then show ?thesis by blast
  qed
qed

lemma strip_comments_subset: "set (strip_comments s) \<subseteq> set s"
proof (induction s rule: strip_comments.induct)
  case 1
  then show ?case by simp
next
  case (2 c cs)
  show ?case
  proof (cases "strip_at (c # cs)")
    case None
    with "2.IH"(1) [OF None] show ?thesis by (auto simp del: strip_at.simps)
  next
    case (Some r)
    from strip_at_suffix [OF Some] obtain u where "c # cs = u @ r" by blast
    then have "set r \<subseteq> set (c # cs)" by (metis Un_upper2 set_append)
    with "2.IH"(2) [OF Some] Some show ?thesis by (auto simp del: strip_at.simps)
  qed
qed

lemma strip_comments_clean:
  "CHR 0x0A \<notin> set s \<Longrightarrow> no_comment (strip_comments s)"
proof (induction s rule: strip_comments.induct)
  case 1
  then show ?case by simp
next
  case (2 c cs)
  show ?case
  proof (cases "strip_at (c # cs)")
    case (Some r)
    from strip_at_suffix [OF Some] obtain u where "c # cs = u @ r" by blast
    then have "set r \<subseteq> set (c # cs)" by (metis Un_upper2 set_append)
    with "2.prems" have "CHR 0x0A \<notin> set r" by blast
    with "2.IH"(2) [OF Some] Some show ?thesis by (simp del: strip_at.simps)
  next
    case None
    let ?r = "strip_comments cs"
    from "2.prems" have nl: "CHR 0x0A \<notin> set cs" by simp
    from "2.IH"(1) [OF None nl] have ih: "no_comment ?r" .
    have "comment_at (c # ?r) = None"
    proof (cases "comment_at (c # ?r)")
      case None
      then show ?thesis .
    next
      case (Some y)
      then obtain x where x: "c # ?r = ''<!--'' @ x" "dotstar_close x = Some y"
        unfolding comment_at_Some_iff by blast
      then have c: "c = CHR ''<''" and r: "?r = ''!--'' @ x" by simp_all
      have hx: "has_close x" using x(2) by (rule dotstar_close_has_close)
      have "\<not> is_space c" using c by (simp add: is_space_def)
      then have "strip_at (c # cs) = comment_at (c # cs)" using strip_at_no_space [of "c # cs"] by simp
      with None have cn: "comment_at (c # cs) = None" by simp
      from strip_comments_shape [OF nl] show ?thesis
      proof
        assume "?r = cs"
        with Some cn show ?thesis by simp
      next
        assume "\<exists>pre t post. cs = pre @ t \<and> strip_at t = Some post \<and> \<not> has_close post \<and>
           ?r = pre @ post"
        then obtain pre t post where
          h: "cs = pre @ t" "strip_at t = Some post" "\<not> has_close post" "?r = pre @ post"
          by blast
        show ?thesis
        proof (cases "3 \<le> length pre")
          case True
          from r h(4) have e: "pre @ post = ''!--'' @ x" by simp
          from True e have "take 3 pre = ''!--''"
            by (metis append_eq_conv_conj length_Cons list.size(3) numeral_3_eq_3 take_append
                diff_is_0_eq' take0 append.right_neutral)
          then obtain p2 where p2: "pre = ''!--'' @ p2" by (metis append_take_drop_id)
          have "has_close t" using h(2) by (rule strip_at_has_close)
          then have "has_close (p2 @ t)" by (rule has_close_append)
          moreover have "CHR 0x0A \<notin> set (p2 @ t)" using nl h(1) p2 by simp
          ultimately have "dotstar_close (p2 @ t) \<noteq> None" by (rule dotstar_close_complete)
          then obtain y' where "dotstar_close (p2 @ t) = Some y'" by blast
          moreover have "c # cs = ''<!--'' @ (p2 @ t)" using c h(1) p2 by simp
          ultimately have "comment_at (c # cs) = Some y'" unfolding comment_at_Some_iff by blast
          with cn show ?thesis by simp
        next
          case False
          from r h(4) have e: "pre @ post = ''!--'' @ x" by simp
          from False e obtain v where "post = v @ x"
            by (metis append_eq_append_conv_if append_take_drop_id length_Cons list.size(3)
                numeral_3_eq_3 not_less_eq_eq nat_le_linear)
          with hx have "has_close post" using has_close_append by blast
          with h(3) show ?thesis by simp
        qed
      qed
    qed
    with ih None show ?thesis by (simp del: strip_at.simps)
  qed
qed

lemma digit_char_is_digit: "n < 10 \<Longrightarrow> is_digit (digit_char n)"
  by (auto simp: eval_nat_numeral less_Suc_eq digit_char_def is_digit_def)

lemma dec_digits: "list_all is_digit (dec n)"
proof (induction n rule: dec.induct)
  case (1 n)
  show ?case
  proof (cases "n < 10")
    case True
    then show ?thesis by (subst dec.simps) (simp add: digit_char_is_digit)
  next
    case False
    then have "list_all is_digit (dec (n div 10))" by (rule "1.IH")
    moreover have "is_digit (digit_char (n mod 10))" by (rule digit_char_is_digit) simp
    ultimately show ?thesis using False by (subst dec.simps) simp
  qed
qed

lemma dec_length: "n < 10 ^ k \<Longrightarrow> 0 < k \<Longrightarrow> length (dec n) \<le> k"
proof (induction n arbitrary: k rule: dec.induct)
  case (1 n)
  show ?case
  proof (cases "n < 10")
    case True
    then show ?thesis using "1.prems" by (subst dec.simps) simp
  next
    case False
    with "1.prems" obtain k' where k: "k = Suc k'" by (cases k) auto
    with False "1.prems" have "0 < k'" by (cases k') auto
    moreover have "n div 10 < 10 ^ k'" using "1.prems"(1) k by (simp add: less_mult_imp_div_less)
    ultimately have "length (dec (n div 10)) \<le> k'" using "1.IH" [OF False] by simp
    then show ?thesis using False k by (subst dec.simps) simp
  qed
qed

lemma pad_digits: "list_all is_digit s \<Longrightarrow> list_all is_digit (pad w s)"
proof -
  assume "list_all is_digit s"
  moreover have "list_all is_digit (replicate (w - length s) (CHR ''0''))"
    by (induction "w - length s" arbitrary: w) (auto simp: is_digit_def list_all_iff)
  ultimately show ?thesis by (simp add: pad_def)
qed

lemma pad_length: "length s \<le> w \<Longrightarrow> length (pad w s) = w"
  by (simp add: pad_def)

lemma is_date_parts:
  assumes "length a = 4" "list_all is_digit a" "length b = 2" "list_all is_digit b"
    "length c = 2" "list_all is_digit c"
  shows "is_date (a @ ''-'' @ b @ ''-'' @ c)"
  using assms by (simp add: is_date_def nth_append)

lemma format_date_is_date:
  assumes "valid_date d"
  shows "is_date (format_date d)"
proof -
  from assms have y: "year d < 10 ^ 4" and m: "month d < 10 ^ 2" by (auto simp: valid_date_def)
  from assms have "day d \<le> daysIn (month d) (year d)" by (simp add: valid_date_def)
  moreover have "daysIn (month d) (year d) \<le> 31" by (simp add: daysIn_def)
  ultimately have dd: "day d < 10 ^ 2" by simp
  have "length (pad 4 (dec (year d))) = 4" using dec_length [OF y] by (intro pad_length) simp
  moreover have "length (pad 2 (dec (month d))) = 2" using dec_length [OF m] by (intro pad_length) simp
  moreover have "length (pad 2 (dec (day d))) = 2" using dec_length [OF dd] by (intro pad_length) simp
  ultimately show ?thesis
    unfolding format_date_def by (intro is_date_parts pad_digits dec_digits)
qed

lemma meta_word_last:
  "last (''<!--'' @ ws0 @ body_text i b d en ws) = CHR ''>''"
  by (simp add: body_text_def)

lemma clean_clear:
  assumes "no_comment r" "CHR 0x0A \<notin> set r" "Y \<noteq> []" "hd Y \<noteq> CHR '';''"
  shows "clear_before (r @ '' '') (''<!--'' @ Y)"
  using assms(1,2)
proof (induction r)
  case Nil
  have "meta_at ('' '' @ ''<!--'' @ Y) = None"
  proof (cases "meta_at ('' '' @ ''<!--'' @ Y)")
    case None
    then show ?thesis .
  next
    case (Some m)
    from meta_at_hd [OF this] show ?thesis by simp
  qed
  then show ?case by simp
next
  case (Cons c r)
  let ?B = "''<!--'' @ Y"
  let ?q = "(c # r) @ '' ''"
  have "meta_at (?q @ ?B) = None"
  proof (cases "meta_at (?q @ ?B)")
    case None
    then show ?thesis .
  next
    case (Some m)
    have q: "?q \<noteq> []" by simp
    from barrier [OF Some q assms(3,4)] obtain z where z: "rest m = z @ ?B" by blast
    from meta_at_sound [OF Some] obtain ws0 b ws where
      s: "?q @ ?B = ''<!--'' @ ws0 @ body_text (grp1 m) b (grp3 m) (grp4 m) ws @ rest m" by blast
    let ?W = "''<!--'' @ ws0 @ body_text (grp1 m) b (grp3 m) (grp4 m) ws"
    from s z have "?q @ ?B = (?W @ z) @ ?B" by simp
    then have e: "?q = ?W @ z" by (simp only: append_same_eq)
    have "z \<noteq> []"
    proof
      assume "z = []"
      with e have "last ?q = last ?W" by simp
      then show False using meta_word_last [of ws0 "grp1 m" b "grp3 m" "grp4 m" ws] by simp
    qed
    then obtain z' where z': "z = z' @ '' ''" using e
      by (metis append_butlast_last_id last_appendR last_snoc)
    with e have "(c # r) @ '' '' = (?W @ z') @ '' ''" by simp
    then have cr: "c # r = ?W @ z'" by (simp only: append_same_eq)
    let ?x = "ws0 @ grp1 m @ [CHR '';'', b, CHR '';''] @ grp3 m @ en_text (grp4 m) @ ws"
    have cr': "c # r = ''<!--'' @ (?x @ ''-->'' @ z')" using cr by (simp add: body_text_def)
    have "has_close (?x @ ''-->'' @ z')" using has_close_lit has_close_append by blast
    moreover have "CHR 0x0A \<notin> set (?x @ ''-->'' @ z')"
    proof -
      have "set (?x @ ''-->'' @ z') \<subseteq> set (c # r)" by (subst cr') auto
      with Cons.prems(2) show ?thesis by blast
    qed
    ultimately have "dotstar_close (?x @ ''-->'' @ z') \<noteq> None" by (rule dotstar_close_complete)
    then obtain y where "dotstar_close (?x @ ''-->'' @ z') = Some y" by blast
    with cr' have "comment_at (c # r) = Some y" unfolding comment_at_Some_iff by blast
    with Cons.prems(1) show ?thesis by simp
  qed
  moreover have "clear_before (r @ '' '') ?B" using Cons by simp
  ultimately show ?case by simp
qed

lemma initializeMetadata_line:
  "initializeMetadata newid today line =
     (strip_comments line @ '' '' @ ''<!--'' @ body_text newid (CHR ''0'') (format_date today) ''true'' [],
      newid, ''0'', format_date today, True)"
  by (simp add: initializeMetadata_def block_def body_text_def en_text_def format_bool_def Let_def)

lemma initializeMetadata_find:
  assumes "CHR 0x0A \<notin> set line" "valid_id newid" "valid_date today"
  shows "find_meta (fst (initializeMetadata newid today line)) =
           Some \<lparr>grp1 = newid, grp2 = ''0'', grp3 = format_date today, grp4 = ''true'', rest = []\<rparr>"
proof -
  let ?r = "strip_comments line"
  let ?Y = "body_text newid (CHR ''0'') (format_date today) ''true'' []"
  have nl: "CHR 0x0A \<notin> set ?r" using assms(1) strip_comments_subset by blast
  have nc: "no_comment ?r" using assms(1) by (rule strip_comments_clean)
  have Y: "?Y \<noteq> []" "hd ?Y \<noteq> CHR '';''"
    using valid_id_facts [OF assms(2)] by (auto simp: body_text_def)
  have c: "clear_before (?r @ '' '') (''<!--'' @ ?Y)" using nc nl Y by (rule clean_clear)
  have mp: "meta_parts newid (CHR ''0'') (format_date today) ''true''"
    using valid_id_facts [OF assms(2)] format_date_is_date [OF assms(3)]
    by (simp add: meta_parts_def is_digit_def)
  have "meta_at (''<!--'' @ [] @ ?Y @ []) =
      Some \<lparr>grp1 = newid, grp2 = ''0'', grp3 = format_date today, grp4 = ''true'', rest = []\<rparr>"
    using mp valid_id_facts(4) [OF assms(2)] by (intro meta_at_exact) auto
  then have h: "find_meta (''<!--'' @ ?Y) =
      Some \<lparr>grp1 = newid, grp2 = ''0'', grp3 = format_date today, grp4 = ''true'', rest = []\<rparr>"
    by (intro find_meta_head) simp
  have "find_meta ((?r @ '' '') @ ''<!--'' @ ?Y) = find_meta (''<!--'' @ ?Y)"
    using c by (rule find_meta_skip)
  with h have "find_meta ((?r @ '' '') @ ''<!--'' @ ?Y) =
      Some \<lparr>grp1 = newid, grp2 = ''0'', grp3 = format_date today, grp4 = ''true'', rest = []\<rparr>"
    by (simp only:)
  moreover have "fst (initializeMetadata newid today line) = (?r @ '' '') @ ''<!--'' @ ?Y"
    by (simp add: initializeMetadata_line)
  ultimately show ?thesis by (simp only:)
qed

lemma initializeMetadata_decode:
  assumes "CHR 0x0A \<notin> set line" "valid_id newid" "valid_date today"
  shows "getMetadata (fst (initializeMetadata newid today line)) =
           (newid, ''0'', format_date today, True)"
  using getMetadata_Some [OF initializeMetadata_find [OF assms]] by simp

section \<open>The two loops of \<^verbatim>\<open>OpenFile\<close>\<close>

lemma dropCR_subset: "set (dropCR l) \<subseteq> set l"
  by (auto simp: dropCR_def dest: in_set_butlastD)

lemma scan_acc_no_newline:
  "CHR 0x0A \<notin> set cur \<Longrightarrow> l \<in> set (scan_acc cur s) \<Longrightarrow> CHR 0x0A \<notin> set l"
proof (induction s arbitrary: cur)
  case Nil
  then show ?case using dropCR_subset [of cur] by (auto split: if_splits)
next
  case (Cons c s)
  show ?case
  proof (cases "c = CHR 0x0A")
    case True
    with Cons.prems(2) have "l = dropCR cur \<or> l \<in> set (scan_acc [] s)"
      by (auto split: if_splits)
    then show ?thesis using Cons.IH [of "[]"] Cons.prems(1) dropCR_subset [of cur] by auto
  next
    case False
    with Cons.prems have "l \<in> set (scan_acc (cur @ [c]) s)" "CHR 0x0A \<notin> set (cur @ [c])" by auto
    then show ?thesis using Cons.IH by blast
  qed
qed

lemma scan_lines_no_newline: "l \<in> set (scan_lines data) \<Longrightarrow> CHR 0x0A \<notin> set l"
  unfolding scan_lines_def using scan_acc_no_newline [of "[]"] by simp

lemma generateNewId_snd: "snd (generateNewId newid today line) = newid"
  by (simp add: generateNewId_def Let_def split: option.splits)

text \<open>What holds of the line and its identifier before the inner loop and is kept by a
  reassignment holds when the loop is left; the identifier is then a new one.\<close>

lemma regenerate_invariant:
  assumes r: "regenerate gen today ids line i n = Some (l', i', n')"
    and i: "I line i"
    and step: "\<And>line i k. I line i \<Longrightarrow> I (fst (generateNewId (gen k) today line)) (gen k)"
  shows "I l' i' \<and> i' \<notin> ids \<and> n \<le> n'"
proof -
  let ?P = "\<lambda>gen0 today0 ids0 line i n y.
    gen0 = gen \<and> today0 = today \<and> ids0 = ids \<longrightarrow> I line i \<longrightarrow>
      (case y of (l', i', n') \<Rightarrow> I l' i' \<and> i' \<notin> ids \<and> n \<le> n')"
  have "?P gen today ids line i n (l', i', n')"
  proof (rule regenerate.raw_induct [where P = ?P, OF _ r], intro impI, elim conjE)
    fix reg gen0 today0 ids0 line i n y
    assume IH: "\<And>gen1 today1 ids1 line i n y. reg gen1 today1 ids1 line i n = Some y \<Longrightarrow>
        gen1 = gen \<and> today1 = today \<and> ids1 = ids \<longrightarrow> I line i \<longrightarrow>
          (case y of (l', i', n') \<Rightarrow> I l' i' \<and> i' \<notin> ids \<and> n \<le> n')"
      and eq: "(if i \<in> ids0
          then case generateNewId (gen0 n) today0 line of
               (line', i') \<Rightarrow> reg gen0 today0 ids0 line' i' (Suc n)
          else Some (line, i, n)) = Some y"
      and g: "gen0 = gen" "today0 = today" "ids0 = ids" and I: "I line i"
    show "case y of (l', i', n') \<Rightarrow> I l' i' \<and> i' \<notin> ids \<and> n \<le> n'"
    proof (cases "i \<in> ids")
      case False
      with eq g I show ?thesis by auto
    next
      case True
      obtain l1 where gn: "generateNewId (gen n) today line = (l1, gen n)"
        using generateNewId_snd [of "gen n" today line] by (cases "generateNewId (gen n) today line") auto
      with eq True g have "reg gen today ids l1 (gen n) (Suc n) = Some y" by simp
      from IH [OF this] step [OF I, of n] gn have
        "case y of (l', i', n') \<Rightarrow> I l' i' \<and> i' \<notin> ids \<and> Suc n \<le> n'" by simp
      then show ?thesis by (auto split: prod.splits)
    qed
  qed
  with i show ?thesis by simp
qed

lemma regenerate_stop: "i \<notin> ids \<Longrightarrow> regenerate gen today ids line i n = Some (line, i, n)"
  by (subst regenerate.simps) simp

lemma regenerate_retry:
  "i \<in> ids \<Longrightarrow>
   regenerate gen today ids line i n =
     regenerate gen today ids (fst (generateNewId (gen n) today line)) (gen n) (Suc n)"
proof -
  assume "i \<in> ids"
  moreover obtain l1 where "generateNewId (gen n) today line = (l1, gen n)"
    using generateNewId_snd [of "gen n" today line] by (cases "generateNewId (gen n) today line") auto
  ultimately show ?thesis by (subst regenerate.simps) simp
qed

text \<open>The identifiers that the second loop reads off the header lines.\<close>

definition decoded :: "string list \<Rightarrow> string list" where
  "decoded ls = map (\<lambda>l. fst (getMetadata l)) (filter is_header ls)"

lemma process_line_other:
  "\<not> is_header l \<Longrightarrow> process_line gen today ids n l = Some (l, ids, n)"
  by (simp add: process_line_def)

lemma process_line_header:
  assumes p: "process_line gen today ids n l = Some (l', ids', n')" and h: "is_header l"
    and nl: "CHR 0x0A \<notin> set l" and v: "\<forall>k. valid_id (gen k)" and t: "valid_date today"
  shows "find_meta l' \<noteq> None \<and> fst (getMetadata l') \<notin> ids \<and>
         ids' = insert (fst (getMetadata l')) ids \<and> n \<le> n'"
proof -
  define I where "I = (\<lambda>line i. find_meta line \<noteq> None \<and> fst (getMetadata line) = i)"
  have step: "\<And>line i k. I line i \<Longrightarrow> I (fst (generateNewId (gen k) today line)) (gen k)"
  proof -
    fix line i k
    assume "I line i"
    then have a: "fst (getMetadata line) \<noteq> []" unfolding I_def using getMetadata_id_iff by blast
    have vk: "valid_id (gen k)" using v by simp
    have d: "getMetadata (fst (generateNewId (gen k) today line)) = (gen k, snd (getMetadata line))"
      using a vk by (rule generateNewId_decode(1))
    then have "fst (getMetadata (fst (generateNewId (gen k) today line))) = gen k" by simp
    moreover have "gen k \<noteq> []" using valid_id_facts(2) [OF vk] .
    ultimately show "I (fst (generateNewId (gen k) today line)) (gen k)"
      unfolding I_def using getMetadata_id_iff by metis
  qed
  let ?R = "\<lambda>line1 i1 n1. (case regenerate gen today ids line1 i1 n1 of None \<Rightarrow> None
      | Some (line2, i2, n2) \<Rightarrow> Some (line2, insert i2 ids, n2)) = Some (l', ids', n')"
  have fin: "find_meta l' \<noteq> None \<and> fst (getMetadata l') \<notin> ids \<and>
         ids' = insert (fst (getMetadata l')) ids \<and> n \<le> n'"
    if R: "?R line1 i1 n1" and I1: "I line1 i1" and n1: "n \<le> n1" for line1 i1 n1
  proof -
    from R obtain i2 where r: "regenerate gen today ids line1 i1 n1 = Some (l', i2, n')"
      and ids': "ids' = insert i2 ids" by (auto split: option.splits)
    have "I l' i2 \<and> i2 \<notin> ids \<and> n1 \<le> n'"
      using r I1 step by (rule regenerate_invariant)
    with ids' n1 show ?thesis unfolding I_def by auto
  qed
  show ?thesis
  proof (cases "fst (getMetadata l) = []")
    case True
    then obtain x where gm: "getMetadata l = ([], x)" by (cases "getMetadata l") auto
    let ?l1 = "strip_comments l @ '' '' @ ''<!--'' @
                 body_text (gen n) (CHR ''0'') (format_date today) ''true'' []"
    have vn: "valid_id (gen n)" using v by simp
    have l1: "fst (initializeMetadata (gen n) today l) = ?l1" by (simp add: initializeMetadata_line)
    have "find_meta ?l1 \<noteq> None" using initializeMetadata_find [OF nl vn t] unfolding l1 by simp
    moreover have "fst (getMetadata ?l1) = gen n"
      using initializeMetadata_decode [OF nl vn t] unfolding l1 by simp
    moreover have "?R ?l1 (gen n) (Suc n)"
      using p h unfolding process_line_def by (simp add: gm initializeMetadata_line)
    ultimately show ?thesis using fin [of ?l1 "gen n" "Suc n"] unfolding I_def by simp
  next
    case False
    then obtain i x where gm: "getMetadata l = (i, x)" "i \<noteq> []" by (cases "getMetadata l") auto
    have "?R l i n" using p h unfolding process_line_def by (simp add: gm)
    moreover have "I l i" unfolding I_def using gm getMetadata_id_iff [of l] by simp
    ultimately show ?thesis using fin [of l i n] by simp
  qed
qed


lemma first_loop_ids:
  assumes "first_loop gen today ids n ls = Some (ls', ids', n')"
    and "\<forall>l \<in> set ls. CHR 0x0A \<notin> set l" and "\<forall>k. valid_id (gen k)" and "valid_date today"
  shows "distinct (decoded ls') \<and> set (decoded ls') \<inter> ids = {} \<and>
         (\<forall>l \<in> set ls'. is_header l \<longrightarrow> find_meta l \<noteq> None)"
  using assms(1,2)
proof (induction ls arbitrary: ids n ls' ids' n')
  case Nil
  then show ?case by (simp add: decoded_def)
next
  case (Cons l ls)
  from Cons.prems(1) obtain l1 ids1 n1 ls1 where
    p: "process_line gen today ids n l = Some (l1, ids1, n1)"
    and f: "first_loop gen today ids1 n1 ls = Some (ls1, ids', n')" and e: "ls' = l1 # ls1"
    by (auto split: option.splits)
  from Cons.prems(2) have nls: "\<forall>l \<in> set ls. CHR 0x0A \<notin> set l" and nl: "CHR 0x0A \<notin> set l" by auto
  from Cons.IH [OF f nls] have ih: "distinct (decoded ls1)" "set (decoded ls1) \<inter> ids1 = {}"
    "\<forall>l \<in> set ls1. is_header l \<longrightarrow> find_meta l \<noteq> None" by auto
  show ?case
  proof (cases "is_header l")
    case False
    then have "l1 = l" "ids1 = ids" using p process_line_other [of l gen today ids n] by auto
    with False ih e show ?thesis by (simp add: decoded_def)
  next
    case True
    from process_line_header [OF p True nl assms(3,4)] have
      h: "find_meta l1 \<noteq> None" "fst (getMetadata l1) \<notin> ids"
         "ids1 = insert (fst (getMetadata l1)) ids" by auto
    have d: "decoded (l1 # ls1) = (if is_header l1 then [fst (getMetadata l1)] else []) @ decoded ls1"
      by (simp add: decoded_def)
    from ih(2) h(3) have "fst (getMetadata l1) \<notin> set (decoded ls1)" "set (decoded ls1) \<inter> ids = {}"
      by auto
    with ih h e show ?thesis unfolding e d by auto
  qed
qed

lemma header_not_category: "is_header l \<Longrightarrow> \<not> HasPrefix l ''# ''"
  by (cases l; cases "tl l") (auto simp: is_header_def HasPrefix_def)

lemma getCardFromLine_Id: "getCardFromLine l cat = Some c \<Longrightarrow> Id c = fst (getMetadata l)"
  by (auto simp: getCardFromLine_def split: prod.splits option.splits)

text \<open>
  The state of the second loop after the header lines with identifiers \<open>hs\<close>: either no
  card is pending, or the pending card is the one of the last header; the cards of the list
  come from the headers before it.
\<close>

definition pending :: "xstate \<Rightarrow> string list \<Rightarrow> bool" where
  "pending st hs =
     (distinct (map Id (fileCards st)) \<and>
      ((currentCard st = empty_card \<and> \<not> readBack st \<and> set (map Id (fileCards st)) \<subseteq> set hs) \<or>
       (hs \<noteq> [] \<and> Id (currentCard st) = last hs \<and>
        set (map Id (fileCards st)) \<subseteq> set (butlast hs))))"

lemma pending_flush:
  assumes "pending st hs" "distinct hs"
  shows "distinct (map Id (fileCards (flush_full st)))"
    and "set (map Id (fileCards (flush_full st))) \<subseteq> set hs"
    and "currentCard (flush_full st) = empty_card \<or>
         hs \<noteq> [] \<and> Id (currentCard (flush_full st)) = last hs \<and>
         set (map Id (fileCards (flush_full st))) \<subseteq> set (butlast hs)"
proof -
  from assms(1) consider
    (idle) "currentCard st = empty_card" "\<not> readBack st" "set (map Id (fileCards st)) \<subseteq> set hs"
      "distinct (map Id (fileCards st))"
  | (live) "hs \<noteq> []" "Id (currentCard st) = last hs" "set (map Id (fileCards st)) \<subseteq> set (butlast hs)"
      "distinct (map Id (fileCards st))"
    unfolding pending_def by blast
  then have "distinct (map Id (fileCards (flush_full st))) \<and>
     set (map Id (fileCards (flush_full st))) \<subseteq> set hs \<and>
     (currentCard (flush_full st) = empty_card \<or>
         hs \<noteq> [] \<and> Id (currentCard (flush_full st)) = last hs \<and>
         set (map Id (fileCards (flush_full st))) \<subseteq> set (butlast hs))"
  proof cases
    case idle
    then have "flush_full st = st" by (simp add: flush_full_def empty_card_def)
    with idle show ?thesis by simp
  next
    case live
    have l: "last hs \<notin> set (butlast hs)" using assms(2) live(1)
      by (metis append_butlast_last_id distinct_butlast not_distinct_conv_prefix)
    have b: "set (butlast hs) \<subseteq> set hs" by (meson in_set_butlastD subsetI)
    show ?thesis
    proof (cases "Front (currentCard st) \<noteq> [] \<and> Back (currentCard st) \<noteq> []")
      case False
      then have "flush_full st = st" by (auto simp: flush_full_def)
      with live b show ?thesis by auto
    next
      case True
      then have f: "flush_full st = appendCard st" by (simp add: flush_full_def)
      have "last hs \<in> set hs" using live(1) by simp
      then show ?thesis
        unfolding f using live l b by (auto simp: appendCard_def)
    qed
  qed
  then show "distinct (map Id (fileCards (flush_full st)))"
    and "set (map Id (fileCards (flush_full st))) \<subseteq> set hs"
    and "currentCard (flush_full st) = empty_card \<or>
         hs \<noteq> [] \<and> Id (currentCard (flush_full st)) = last hs \<and>
         set (map Id (fileCards (flush_full st))) \<subseteq> set (butlast hs)" by blast+
qed

lemma card_step_pending:
  assumes s: "card_step st l = Some st'" and p: "pending st hs"
    and d: "distinct (hs @ decoded [l])"
  shows "pending st' (hs @ decoded [l])"
proof -
  from d have dh: "distinct hs" by simp
  note fl = pending_flush [OF p dh]
  consider (cat) "HasPrefix l ''# ''" | (hdr) "\<not> HasPrefix l ''# ''" "is_header l"
    | (other) "\<not> HasPrefix l ''# ''" "\<not> is_header l" by blast
  then show ?thesis
  proof cases
    case cat
    then have nh: "\<not> is_header l" using header_not_category by blast
    from s cat have st': "st' = (flush_full st)\<lparr>currentCategory := TrimSpace (drop 2 l), readBack := False\<rparr>"
      by (simp add: card_step_def)
    show ?thesis using fl nh unfolding st' pending_def decoded_def by auto
  next
    case hdr
    from s hdr obtain c where c: "getCardFromLine l (currentCategory (flush_full st)) = Some c"
      and st': "st' = (flush_full st)\<lparr>currentCard := c, readBack := True\<rparr>"
      by (auto simp: card_step_def Let_def split: option.splits)
    have "Id c = fst (getMetadata l)" using c by (rule getCardFromLine_Id)
    then show ?thesis using fl hdr unfolding st' pending_def decoded_def by auto
  next
    case other
    from s other have "st' = st \<or>
        st' = st\<lparr>currentCard := (currentCard st)\<lparr>Back := Back (currentCard st) @ l @ [CHR 0x0A]\<rparr>\<rparr> \<and>
        readBack st"
      by (auto simp: card_step_def split: if_splits)
    then show ?thesis
    proof
      assume "st' = st"
      with p other show ?thesis by (simp add: decoded_def)
    next
      assume a: "st' = st\<lparr>currentCard := (currentCard st)\<lparr>Back := Back (currentCard st) @ l @ [CHR 0x0A]\<rparr>\<rparr> \<and>
        readBack st"
      with p have live: "hs \<noteq> []" "Id (currentCard st) = last hs"
        "set (map Id (fileCards st)) \<subseteq> set (butlast hs)" "distinct (map Id (fileCards st))"
        unfolding pending_def by auto
      have "fileCards st' = fileCards st" "Id (currentCard st') = Id (currentCard st)"
        using a by simp_all
      with live have "pending st' hs" unfolding pending_def by simp
      with other show ?thesis by (simp add: decoded_def)
    qed
  qed
qed

lemma decoded_append: "decoded (a @ b) = decoded a @ decoded b"
  by (simp add: decoded_def)

lemma second_loop_pending:
  "second_loop st ls = Some st' \<Longrightarrow> pending st hs \<Longrightarrow> distinct (hs @ decoded ls) \<Longrightarrow>
   pending st' (hs @ decoded ls)"
proof (induction ls arbitrary: st hs)
  case Nil
  then show ?case by (simp add: decoded_def)
next
  case (Cons l ls)
  from Cons.prems(1) obtain st1 where s: "card_step st l = Some st1"
    and r: "second_loop st1 ls = Some st'" by (auto split: option.splits)
  have e: "decoded (l # ls) = decoded [l] @ decoded ls" using decoded_append [of "[l]" ls] by simp
  from Cons.prems(3) have d1: "distinct (hs @ decoded [l])"
    and d2: "distinct ((hs @ decoded [l]) @ decoded ls)" unfolding e by auto
  from card_step_pending [OF s Cons.prems(2) d1] have "pending st1 (hs @ decoded [l])" .
  from Cons.IH [OF r this d2] show ?case unfolding e by simp
qed

lemma extract_cards_distinct:
  assumes "extract_cards ls = Some cs" "distinct (decoded ls)"
  shows "distinct (map Id cs)"
proof -
  from assms(1) obtain st where s: "second_loop init_xstate ls = Some st"
    and cs: "cs = fileCards (if readBack st then appendCard st else st)"
    by (auto simp: extract_cards_def split: option.splits)
  have "pending init_xstate []" by (simp add: pending_def init_xstate_def)
  from second_loop_pending [OF s this] assms(2) have p: "pending st (decoded ls)" by simp
  show ?thesis
  proof (cases "readBack st")
    case False
    with p cs show ?thesis by (simp add: pending_def)
  next
    case True
    with p have l: "decoded ls \<noteq> []" "Id (currentCard st) = last (decoded ls)"
      "set (map Id (fileCards st)) \<subseteq> set (butlast (decoded ls))" "distinct (map Id (fileCards st))"
      unfolding pending_def by auto
    have "last (decoded ls) \<notin> set (butlast (decoded ls))" using assms(2) l(1)
      by (metis append_butlast_last_id distinct_butlast not_distinct_conv_prefix)
    with l True cs show ?thesis by (auto simp: appendCard_def)
  qed
qed

lemma OpenFile_Some:
  assumes "OpenFile gen today absf disk n path = Some (disk', n', out)"
  shows "(path = [] \<or> absf path = [] \<or> disk (absf path) = None) \<and> disk' = disk \<and> n' = n \<and>
           (\<exists>e. out = Failed e) \<or>
         (\<exists>data ls ids. path \<noteq> [] \<and> disk (absf path) = Some data \<and>
            first_loop gen today {} n (scan_lines data) = Some (ls, ids, n') \<and>
            disk' = disk(absf path \<mapsto> join_nl ls) \<and>
            out = (case extract_cards ls of None \<Rightarrow> Panic
                   | Some cs \<Rightarrow> if cs = [] then Failed NoCardsFound else Loaded cs))"
  using assms unfolding OpenFile_def
  by (auto split: if_splits option.splits prod.splits simp: Let_def simp del: first_loop.simps)

text \<open>A deck of two cards whose headers carry the same block, for the examples.\<close>

definition deck2 :: string where
  "deck2 = ''## A <!--dupl;1;2030-01-01-->'' @ [CHR 0x0A] @ ''x'' @ [CHR 0x0A] @
           ''## B <!--dupl;1;2030-01-01-->'' @ [CHR 0x0A] @ ''y''"

definition deck2_lines :: "string list" where
  "deck2_lines = [''## A <!--dupl;1;2030-01-01-->'', ''x'', ''## B <!--dupl;1;2030-01-01-->'', ''y'']"

definition deck2_loaded :: "string list" where
  "deck2_loaded = [''## A <!--dupl;1;2030-01-01-->'', ''x'', ''## B <!--AAAA;1;2030-01-01-->'', ''y'']"

definition deck2_cards :: "card list" where
  "deck2_cards =
     [\<lparr>Id = ''dupl'', Category = [], Front = ''A'', Back = ''x'', Box = 1,
        Due = \<lparr>year = 2030, month = 1, day = 1\<rparr>, Enabled = True\<rparr>,
      \<lparr>Id = ''AAAA'', Category = [], Front = ''B'', Back = ''y'', Box = 1,
        Due = \<lparr>year = 2030, month = 1, day = 1\<rparr>, Enabled = True\<rparr>]"

lemma deck2_scan: "scan_lines deck2 = deck2_lines"
  by (simp add: deck2_def deck2_lines_def scan_lines_def MaxScanTokenSize_def dropCR_def)

lemma deck2_first:
  "first_loop (\<lambda>n. ''AAAA'') \<lparr>year = 2026, month = 10, day = 31\<rparr> {} 0 deck2_lines =
     Some (deck2_loaded, {''AAAA'', ''dupl''}, 1)"
  unfolding deck2_lines_def deck2_loaded_def by code_simp

lemma deck2_extract: "extract_cards deck2_loaded = Some deck2_cards"
  unfolding deck2_loaded_def deck2_cards_def by code_simp

lemma deck2_OpenFile:
  "OpenFile (\<lambda>n. ''AAAA'') \<lparr>year = 2026, month = 10, day = 31\<rparr> (\<lambda>p. p)
     [''deck.md'' \<mapsto> deck2] 0 ''deck.md'' =
   Some ([''deck.md'' \<mapsto> deck2](''deck.md'' \<mapsto> join_nl deck2_loaded), 1, Loaded deck2_cards)"
  by (simp add: OpenFile_def deck2_scan deck2_first deck2_extract deck2_cards_def
      del: first_loop.simps)

section \<open>The lines of a file\<close>











section \<open>The scheduler query\<close>


text \<open>The test of the loop body: the card is due today or earlier.\<close>

definition overdue :: "date \<Rightarrow> card \<Rightarrow> bool" where
  "overdue today c = (Before (Due c) today \<or> Equal (Due c) today)"

lemma Before_trans: "Before a b \<Longrightarrow> Before b c \<Longrightarrow> Before a c"
  by (auto simp: Before_def)

lemma Before_irrefl: "\<not> Before a a"
  by (simp add: Before_def)

lemma Before_total: "\<not> Before a b \<Longrightarrow> \<not> Equal a b \<Longrightarrow> Before b a"
  by (auto simp: Before_def Equal_def)

lemma closest_loop_overdue:
  "\<exists>c \<in> set cs. overdue today c \<Longrightarrow> closest_loop today acc cs = Inl OverdueFound"
  by (induction cs arbitrary: acc) (auto simp: overdue_def)

lemma closest_loop_min:
  assumes "\<forall>c \<in> set cs. \<not> overdue today c" and "Before today acc" and "\<not> Before today zero_time"
  shows "\<exists>d. closest_loop today acc cs = Inr d \<and> d \<in> insert acc (Due ` set cs) \<and>
             \<not> Before acc d \<and> (\<forall>c \<in> set cs. \<not> Before (Due c) d)"
  using assms
proof (induction cs arbitrary: acc)
  case Nil
  then show ?case by (simp add: Before_irrefl)
next
  case (Cons c cs)
  from Cons.prems have nz: "\<not> IsZero acc" by (auto simp: IsZero_def)
  from Cons.prems have c: "\<not> Before (Due c) today" "\<not> Equal (Due c) today"
    and rest: "\<forall>c \<in> set cs. \<not> overdue today c" by (auto simp: overdue_def)
  then have bc: "Before today (Due c)" by (simp add: Before_total)
  show ?case
  proof (cases "Before (Due c) acc")
    case True
    from Cons.IH [OF rest bc Cons.prems(3)] obtain d where
      d: "closest_loop today (Due c) cs = Inr d" "d \<in> insert (Due c) (Due ` set cs)"
         "\<not> Before (Due c) d" "\<forall>c \<in> set cs. \<not> Before (Due c) d" by blast
    have "\<not> Before acc d" using True d(3) Before_trans by blast
    with d True c show ?thesis by auto
  next
    case False
    from Cons.IH [OF rest Cons.prems(2,3)] obtain d where
      d: "closest_loop today acc cs = Inr d" "d \<in> insert acc (Due ` set cs)"
         "\<not> Before acc d" "\<forall>c \<in> set cs. \<not> Before (Due c) d" by blast
    have "\<not> Before (Due c) d"
    proof
      assume a: "Before (Due c) d"
      have "d = acc \<or> Before d acc" using d(3) Before_total [of acc d]
        by (cases "Equal acc d") (auto simp: Equal_def)
      then show False using a False Before_trans by blast
    qed
    with d False c nz show ?thesis by auto
  qed
qed

text \<open>
  Claim C5. With \<open>today\<close> the current date truncated to the day (and not before the zero
  time): if some card is due on or before \<open>today\<close>, \<^const>\<open>FindClosestDate\<close> returns the
  \<open>OverdueFound\<close> error; otherwise it returns, without error, the least \<open>Due\<close> of the list,
  and the zero time on the empty list. A single card due today gives the error, a single card
  due later gives its date.
\<close>

theorem FindClosestDate_spec:
  assumes "\<not> Before today zero_time"
  shows "((\<exists>c \<in> set cards. overdue today c) \<longrightarrow> FindClosestDate today cards = Inl OverdueFound) \<and>
         ((\<forall>c \<in> set cards. \<not> overdue today c) \<longrightarrow>
            (\<exists>d. FindClosestDate today cards = Inr d \<and>
                 (cards = [] \<longrightarrow> d = zero_time) \<and>
                 (cards \<noteq> [] \<longrightarrow> d \<in> Due ` set cards \<and> (\<forall>c \<in> set cards. \<not> Before (Due c) d)))) \<and>
         (Due c = today \<longrightarrow> FindClosestDate today [c] = Inl OverdueFound) \<and>
         (Before today (Due c) \<longrightarrow> FindClosestDate today [c] = Inr (Due c))"
proof (intro conjI impI)
  assume "\<exists>c \<in> set cards. overdue today c"
  then show "FindClosestDate today cards = Inl OverdueFound"
    unfolding FindClosestDate_def by (rule closest_loop_overdue)
next
  assume ok: "\<forall>c \<in> set cards. \<not> overdue today c"
  show "\<exists>d. FindClosestDate today cards = Inr d \<and>
                 (cards = [] \<longrightarrow> d = zero_time) \<and>
                 (cards \<noteq> [] \<longrightarrow> d \<in> Due ` set cards \<and> (\<forall>c \<in> set cards. \<not> Before (Due c) d))"
  proof (cases cards)
    case Nil
    then show ?thesis by (simp add: FindClosestDate_def)
  next
    case (Cons x xs)
    from ok Cons have x: "\<not> Before (Due x) today" "\<not> Equal (Due x) today"
      and rest: "\<forall>c \<in> set xs. \<not> overdue today c" by (auto simp: overdue_def)
    then have bx: "Before today (Due x)" by (simp add: Before_total)
    from closest_loop_min [OF rest bx assms] obtain d where
      d: "closest_loop today (Due x) xs = Inr d" "d \<in> insert (Due x) (Due ` set xs)"
         "\<not> Before (Due x) d" "\<forall>c \<in> set xs. \<not> Before (Due c) d" by blast
    have "FindClosestDate today cards = Inr d"
      using Cons x d(1) by (simp add: FindClosestDate_def IsZero_def)
    with d Cons show ?thesis by auto
  qed
next
  assume "Due c = today"
  then show "FindClosestDate today [c] = Inl OverdueFound"
    by (simp add: FindClosestDate_def Equal_def)
next
  assume b: "Before today (Due c)"
  then have "\<not> Before (Due c) today" "\<not> Equal (Due c) today"
    using Before_trans Before_irrefl by (blast, auto simp: Before_def Equal_def)
  then show "FindClosestDate today [c] = Inr (Due c)"
    by (simp add: FindClosestDate_def IsZero_def)
qed

theorem FindClosestDate_spec_witness:
  "FindClosestDate \<lparr>year = 2026, month = 10, day = 31\<rparr>
     [empty_card\<lparr>Due := \<lparr>year = 2026, month = 10, day = 31\<rparr>\<rparr>] = Inl OverdueFound \<and>
   FindClosestDate \<lparr>year = 2026, month = 10, day = 31\<rparr>
     [empty_card\<lparr>Due := \<lparr>year = 2026, month = 11, day = 1\<rparr>\<rparr>] = Inr \<lparr>year = 2026, month = 11, day = 1\<rparr>"
  using FindClosestDate_spec [of "\<lparr>year = 2026, month = 10, day = 31\<rparr>"
    "[]" "empty_card\<lparr>Due := \<lparr>year = 2026, month = 10, day = 31\<rparr>\<rparr>"]
   FindClosestDate_spec [of "\<lparr>year = 2026, month = 10, day = 31\<rparr>"
    "[]" "empty_card\<lparr>Due := \<lparr>year = 2026, month = 11, day = 1\<rparr>\<rparr>"]
  by (simp add: Before_def zero_time_def)

section \<open>The decoder\<close>

text \<open>
  Claim C7, as the code has it. A line is recognised only if it holds an opening tag, white
  space, four characters other than a newline (they need not be of the identifier
  alphabet), a semicolon, one decimal digit, a semicolon, a date, the optional flag, white
  space and the closing tag; the decoder returns these parts. A comment whose box field
  has two or more digits is not recognised.
\<close>

theorem getMetadata_recognizes:
  "(fst (getMetadata line) \<noteq> [] \<longrightarrow>
      (\<exists>pre ws0 i b d en ws post.
         line = pre @ ''<!--'' @ ws0 @ i @ [CHR '';'', b, CHR '';''] @ d @ en_text en @ ws @ ''-->'' @ post \<and>
         list_all is_space ws0 \<and> length i = 4 \<and> CHR 0x0A \<notin> set i \<and> is_digit b \<and> is_date d \<and>
         en \<in> {[], ''true'', ''false''} \<and> list_all is_space ws \<and>
         getMetadata line = (i, [b], d, en \<noteq> ''false''))) \<and>
   (valid_id i' \<and> list_all is_digit bs \<and> 2 \<le> length bs \<and> list_all is_space ws' \<and>
    CHR ''<'' \<notin> set pre' \<and> CHR ''<'' \<notin> set post' \<longrightarrow>
      getMetadata (pre' @ ''<!--'' @ ws' @ i' @ '';'' @ bs @ post') = ([], [], [], True))"
proof (intro conjI impI)
  assume "fst (getMetadata line) \<noteq> []"
  then obtain m where f: "find_meta line = Some m" using getMetadata_id_iff by blast
  from find_meta_sound [OF f] obtain pre t where l: "line = pre @ t" and t: "meta_at t = Some m"
    by blast
  from meta_at_sound [OF t] obtain ws0 b ws where
    s: "t = ''<!--'' @ ws0 @ body_text (grp1 m) b (grp3 m) (grp4 m) ws @ rest m"
    and w: "list_all is_space ws0" "list_all is_space ws" and g: "grp2 m = [b]"
    and mp: "meta_parts (grp1 m) b (grp3 m) (grp4 m)" by blast
  have "line = pre @ ''<!--'' @ ws0 @ grp1 m @ [CHR '';'', b, CHR '';''] @ grp3 m @
          en_text (grp4 m) @ ws @ ''-->'' @ rest m"
    using l s by (simp add: body_text_def)
  moreover have "getMetadata line = (grp1 m, [b], grp3 m, grp4 m \<noteq> ''false'')"
    using getMetadata_Some [OF f] g by simp
  ultimately show "\<exists>pre ws0 i b d en ws post.
         line = pre @ ''<!--'' @ ws0 @ i @ [CHR '';'', b, CHR '';''] @ d @ en_text en @ ws @ ''-->'' @ post \<and>
         list_all is_space ws0 \<and> length i = 4 \<and> CHR 0x0A \<notin> set i \<and> is_digit b \<and> is_date d \<and>
         en \<in> {[], ''true'', ''false''} \<and> list_all is_space ws \<and>
         getMetadata line = (i, [b], d, en \<noteq> ''false'')"
    using w mp unfolding meta_parts_def by blast
next
  assume a: "valid_id i' \<and> list_all is_digit bs \<and> 2 \<le> length bs \<and> list_all is_space ws' \<and>
    CHR ''<'' \<notin> set pre' \<and> CHR ''<'' \<notin> set post'"
  let ?u = "i' @ '';'' @ bs @ post'"
  have v: "length i' = 4" "\<forall>c \<in> set i'. c \<noteq> CHR '';''" "\<not> is_space (hd i')" "i' \<noteq> []"
      "CHR ''<'' \<notin> set i'"
    using a valid_id_facts [of i'] alphabet_chars(1) by (auto simp: valid_id_def list_all_iff)
  have body: "meta_body (w @ ?u) = None" if w: "list_all is_space w" for w
  proof (cases "w = []")
    case True
    from a obtain b1 b2 bs' where bs: "bs = b1 # b2 # bs'" "is_digit b2"
      by (cases bs; cases "tl bs") auto
    have "?u ! 6 = b2" using v(1) bs by (simp add: nth_append)
    moreover have "b2 \<noteq> CHR '';''" using bs(2) by (auto simp: is_digit_def)
    ultimately show ?thesis using True by (simp add: meta_body_def)
  next
    case False
    have "(w @ ?u) ! 4 \<noteq> CHR '';''"
    proof (cases "4 < length w")
      case True
      then have "(w @ ?u) ! 4 = w ! 4" by (simp add: nth_append)
      moreover have "is_space (w ! 4)" using w True by (simp add: list_all_length)
      ultimately show ?thesis by (auto simp: is_space_def)
    next
      case f: False
      then have "(w @ ?u) ! 4 = i' ! (4 - length w)" using v(1) False
        by (cases "length w = 4") (auto simp: nth_append)
      moreover have "i' ! (4 - length w) \<in> set i'" using v(1) False by simp
      ultimately show ?thesis using v(2) by auto
    qed
    then show ?thesis by (simp add: meta_body_def)
  qed
  have ws: "meta_ws (w @ ?u) = None" if "list_all is_space w" for w
    using that
  proof (induction w)
    case Nil
    have "meta_body ([] @ ?u) = None" by (rule body) simp
    then show ?case using v(3,4) by (cases i') auto
  next
    case (Cons c w)
    then show ?case using body [of "c # w"] by (simp add: orelse_def)
  qed
  have "meta_at (''<!--'' @ ws' @ ?u) = None"
    unfolding meta_at_def lit_append using ws a by simp
  moreover have "find_meta (''!--'' @ ws' @ ?u) = None"
    using a v(5) spaces_not_lt [of ws'] is_digit_not_lt
    by (intro find_meta_no_lt) (auto simp: list_all_iff)
  ultimately have "find_meta (''<!--'' @ ws' @ ?u) = None" by (simp add: orelse_def)
  moreover have "clear_before pre' (''<!--'' @ ws' @ ?u)" using a by (intro clear_before_no_lt) simp
  ultimately have "find_meta (pre' @ ''<!--'' @ ws' @ ?u) = None"
    using find_meta_skip by metis
  then show "getMetadata (pre' @ ''<!--'' @ ws' @ i' @ '';'' @ bs @ post') = ([], [], [], True)"
    using getMetadata_None by simp
qed

theorem getMetadata_recognizes_witness:
  "getMetadata ''## Q <!--  abcd;2;2025-01-01;false -->'' = (''abcd'', ''2'', ''2025-01-01'', False) \<and>
   getMetadata ''## Q <!--abcd;12;2025-01-01-->'' = ([], [], [], True)"
proof -
  have "getMetadata (''## Q '' @ ''<!--'' @ [] @ ''abcd'' @ '';'' @ ''12'' @ '';2025-01-01-->'')
          = ([], [], [], True)"
    using getMetadata_recognizes [of "[]" "''abcd''" "''12''" "[]" "''## Q ''" "'';2025-01-01-->''"]
    by (simp add: valid_id_def alphabet_def is_digit_def)
  moreover have "getMetadata ''## Q <!--  abcd;2;2025-01-01;false -->'' =
      (''abcd'', ''2'', ''2025-01-01'', False)"
    by (simp add: getMetadata_def meta_at_def lit_def orelse_def meta_body_def is_date_def
        is_digit_def enabled_at_def is_space_def)
  ultimately show ?thesis by simp
qed

theorem getMetadata_any_id_counterexample:
  "getMetadata ''## Q <!--a!b?;2;2025-01-01-->'' = (''a!b?'', ''2'', ''2025-01-01'', True) \<and>
   \<not> valid_id ''a!b?''"
  by (simp add: getMetadata_def meta_at_def lit_def orelse_def meta_body_def is_date_def
      is_digit_def enabled_at_def is_space_def valid_id_def alphabet_def)

section \<open>Reassigning an identifier\<close>

text \<open>
  Claim C4, as the code has it. Take any line \<open>pre @ t\<close> whose first match \<open>m\<close> begins
  \<open>t\<close>: the opening tag, white space, the four parts, white space, the closing tag and the
  text \<open>rest m\<close> behind it.
  \<^item> A first comment without the fourth field decodes with \<open>enabled = true\<close>.
  \<^item> Reassignment returns \<open>pre\<close>, then the block \<^verbatim>\<open><!--NEWID;box;due-->\<close> with the box and
    the date of the match verbatim, with the fourth field only if the match had one and
    without the inner white space, then \<open>rest m\<close> in which every further metadata comment
    has given way to the same block. When no metadata comment follows, \<open>rest m\<close> is
    returned as it is: then only the identifier (and the inner white space) differs.
  \<^item> The box, date and enabled flag that the line decodes to stay as they were.
\<close>

theorem generateNewId_rewrites:
  assumes "clear_before pre t" and "meta_at t = Some m"
  shows "(\<exists>ws0 ws. t = ''<!--'' @ ws0 @ grp1 m @ '';'' @ grp2 m @ '';'' @ grp3 m @
                         en_text (grp4 m) @ ws @ ''-->'' @ rest m \<and>
                    list_all is_space ws0 \<and> list_all is_space ws) \<and>
         generateNewId newid today (pre @ t) =
           (pre @ (''<!--'' @ newid @ '';'' @ grp2 m @ '';'' @ grp3 m @ en_text (grp4 m) @ ''-->'') @
              replace_meta
                (''<!--'' @ newid @ '';'' @ grp2 m @ '';'' @ grp3 m @ en_text (grp4 m) @ ''-->'')
                (rest m),
            newid) \<and>
         (find_meta (rest m) = None \<longrightarrow>
            generateNewId newid today (pre @ t) =
              (pre @ (''<!--'' @ newid @ '';'' @ grp2 m @ '';'' @ grp3 m @ en_text (grp4 m) @ ''-->'') @
                 rest m,
               newid)) \<and>
         (grp4 m = [] \<longrightarrow> getMetadata (pre @ t) = (grp1 m, grp2 m, grp3 m, True)) \<and>
         (valid_id newid \<longrightarrow>
            getMetadata (fst (generateNewId newid today (pre @ t))) =
              (newid, snd (getMetadata (pre @ t))))"
proof -
  let ?u = "''<!--'' @ newid @ '';'' @ grp2 m @ '';'' @ grp3 m @ en_text (grp4 m) @ ''-->''"
  have f: "find_meta (pre @ t) = Some m"
    using find_meta_skip [OF assms(1)] find_meta_head [OF assms(2)] by simp
  from meta_at_sound [OF assms(2)] obtain ws0 b ws where
    s: "t = ''<!--'' @ ws0 @ body_text (grp1 m) b (grp3 m) (grp4 m) ws @ rest m"
    and w: "list_all is_space ws0" "list_all is_space ws" and g: "grp2 m = [b]" by blast
  have t': "t = ''<!--'' @ ws0 @ grp1 m @ '';'' @ grp2 m @ '';'' @ grp3 m @
                  en_text (grp4 m) @ ws @ ''-->'' @ rest m"
    using s g by (simp add: body_text_def)
  have u: "updated_text newid m = ?u"
    by (simp add: updated_text_def en_text_def Let_def)
  have gen: "generateNewId newid today (pre @ t) = (pre @ ?u @ replace_meta ?u (rest m), newid)"
    using generateNewId_match [OF f, of newid today]
      replace_meta_skip [OF assms(1), of "updated_text newid m"]
      replace_meta_head [OF assms(2), of "updated_text newid m"] u by simp
  have gen': "generateNewId newid today (pre @ t) = (pre @ ?u @ rest m, newid)"
    if "find_meta (rest m) = None"
    using gen replace_meta_none [OF that] by simp
  have dec: "getMetadata (pre @ t) = (grp1 m, grp2 m, grp3 m, True)" if "grp4 m = []"
    using getMetadata_Some [OF f] that by simp
  have keep: "getMetadata (fst (generateNewId newid today (pre @ t))) =
      (newid, snd (getMetadata (pre @ t)))" if "valid_id newid"
  proof -
    have "fst (getMetadata (pre @ t)) \<noteq> []" using f getMetadata_id_iff by simp
    then show ?thesis using that by (rule generateNewId_decode(1))
  qed
  have ex: "\<exists>ws0 ws. t = ''<!--'' @ ws0 @ grp1 m @ '';'' @ grp2 m @ '';'' @ grp3 m @
                         en_text (grp4 m) @ ws @ ''-->'' @ rest m \<and>
                    list_all is_space ws0 \<and> list_all is_space ws"
    using t' w by blast
  show ?thesis
  proof (intro conjI impI)
    show "\<exists>ws0 ws. t = ''<!--'' @ ws0 @ grp1 m @ '';'' @ grp2 m @ '';'' @ grp3 m @
                         en_text (grp4 m) @ ws @ ''-->'' @ rest m \<and>
                    list_all is_space ws0 \<and> list_all is_space ws" by (rule ex)
    show "generateNewId newid today (pre @ t) = (pre @ ?u @ replace_meta ?u (rest m), newid)"
      by (rule gen)
    show "generateNewId newid today (pre @ t) = (pre @ ?u @ rest m, newid)"
      if "find_meta (rest m) = None" using that by (rule gen')
    show "getMetadata (pre @ t) = (grp1 m, grp2 m, grp3 m, True)" if "grp4 m = []"
      using that by (rule dec)
    show "getMetadata (fst (generateNewId newid today (pre @ t))) =
      (newid, snd (getMetadata (pre @ t)))" if "valid_id newid" using that by (rule keep)
  qed
qed

theorem generateNewId_rewrites_witness:
  "generateNewId ''WXYZ'' \<lparr>year = 2026, month = 10, day = 31\<rparr> ''## Is a < b? <!--abcd;2;2025-01-01-->'' =
     (''## Is a < b? <!--WXYZ;2;2025-01-01-->'', ''WXYZ'') \<and>
   getMetadata ''## Is a < b? <!--abcd;2;2025-01-01-->'' = (''abcd'', ''2'', ''2025-01-01'', True)"
proof -
  let ?pre = "''## Is a < b? ''"
  let ?t = "''<!--abcd;2;2025-01-01-->''"
  let ?m = "\<lparr>grp1 = ''abcd'', grp2 = ''2'', grp3 = ''2025-01-01'', grp4 = [], rest = []\<rparr>"
  have c: "clear_before ?pre ?t" by code_simp
  have t: "meta_at ?t = Some ?m" by code_simp
  from generateNewId_rewrites [OF c t, of "''WXYZ''" "\<lparr>year = 2026, month = 10, day = 31\<rparr>"]
  show ?thesis by (simp add: en_text_def)
qed

theorem generateNewId_second_comment_counterexample:
  "generateNewId ''WXYZ'' \<lparr>year = 2026, month = 10, day = 31\<rparr>
     ''## Q <!--abcd;2;2025-01-01--> <!--efgh;5;2031-12-31;false-->'' =
   (''## Q <!--WXYZ;2;2025-01-01--> <!--WXYZ;2;2025-01-01-->'', ''WXYZ'')"
  by code_simp

section \<open>Cards without a back\<close>

lemma scan_one: "scan_lines ''## Q <!--abcd;1;2030-01-01-->'' = [''## Q <!--abcd;1;2030-01-01-->'']"
  by (simp add: scan_lines_def MaxScanTokenSize_def dropCR_def)

lemma first_one:
  "first_loop (\<lambda>n. ''AAAA'') \<lparr>year = 2026, month = 10, day = 31\<rparr> {} 0 [''## Q <!--abcd;1;2030-01-01-->'']
     = Some ([''## Q <!--abcd;1;2030-01-01-->''], {''abcd''}, 0)"
  by code_simp

lemma extract_one:
  "extract_cards [''## Q <!--abcd;1;2030-01-01-->''] =
     Some [\<lparr>Id = ''abcd'', Category = [], Front = ''Q'', Back = [], Box = 1,
                  Due = \<lparr>year = 2030, month = 1, day = 1\<rparr>, Enabled = True\<rparr>]"
  by code_simp

text \<open>
  Claim C6, on the code. A file whose only header has no body loads without error, and the
  card list holds that card with an empty \<open>Back\<close>: the append at the end of the input is
  not behind the test of the two other appends. A card in the middle of the file whose body
  is a blank line is kept as well, with a \<open>Back\<close> that is empty after trimming: the test
  reads the text before \<^verbatim>\<open>TrimSpace\<close>.
\<close>

theorem OpenFile_keeps_card_without_back:
  "map_option (\<lambda>(d, n, out). out)
     (OpenFile (\<lambda>n. ''AAAA'') \<lparr>year = 2026, month = 10, day = 31\<rparr> (\<lambda>p. p)
        [''deck.md'' \<mapsto> ''## Q <!--abcd;1;2030-01-01-->''] 0 ''deck.md'') =
   Some (Loaded [\<lparr>Id = ''abcd'', Category = [], Front = ''Q'', Back = [], Box = 1,
                  Due = \<lparr>year = 2030, month = 1, day = 1\<rparr>, Enabled = True\<rparr>]) \<and>
   extract_cards [''## A <!--abcd;1;2030-01-01-->'', [], ''## B <!--efgh;2;2030-01-02-->'', ''b''] =
   Some [\<lparr>Id = ''abcd'', Category = [], Front = ''A'', Back = [], Box = 1,
            Due = \<lparr>year = 2030, month = 1, day = 1\<rparr>, Enabled = True\<rparr>,
         \<lparr>Id = ''efgh'', Category = [], Front = ''B'', Back = ''b'', Box = 2,
            Due = \<lparr>year = 2030, month = 1, day = 2\<rparr>, Enabled = True\<rparr>]"
proof
  show "map_option (\<lambda>(d, n, out). out)
     (OpenFile (\<lambda>n. ''AAAA'') \<lparr>year = 2026, month = 10, day = 31\<rparr> (\<lambda>p. p)
        [''deck.md'' \<mapsto> ''## Q <!--abcd;1;2030-01-01-->''] 0 ''deck.md'') =
   Some (Loaded [\<lparr>Id = ''abcd'', Category = [], Front = ''Q'', Back = [], Box = 1,
                  Due = \<lparr>year = 2030, month = 1, day = 1\<rparr>, Enabled = True\<rparr>])"
    by (simp add: OpenFile_def scan_one first_one extract_one del: first_loop.simps)
  show "extract_cards [''## A <!--abcd;1;2030-01-01-->'', [], ''## B <!--efgh;2;2030-01-02-->'', ''b''] =
   Some [\<lparr>Id = ''abcd'', Category = [], Front = ''A'', Back = [], Box = 1,
            Due = \<lparr>year = 2030, month = 1, day = 1\<rparr>, Enabled = True\<rparr>,
         \<lparr>Id = ''efgh'', Category = [], Front = ''B'', Back = ''b'', Box = 2,
            Due = \<lparr>year = 2030, month = 1, day = 2\<rparr>, Enabled = True\<rparr>]"
    by code_simp
qed

section \<open>Identifiers are unique\<close>

text \<open>
  Claim C1. When \<^const>\<open>OpenFile\<close> returns without error, the identifiers of the cards of
  the session are pairwise distinct, whatever the file held. (The generator returns
  identifiers of four symbols of its alphabet, and today is a date of the calendar.)
\<close>

theorem OpenFile_ids_distinct:
  assumes "OpenFile gen today absf disk n path = Some (disk', n', Loaded cs)"
    and "\<forall>k. valid_id (gen k)" and "valid_date today"
  shows "distinct (map Id cs)"
proof -
  from OpenFile_Some [OF assms(1)] obtain data ls ids where
    f: "first_loop gen today {} n (scan_lines data) = Some (ls, ids, n')"
    and o: "Loaded cs = (case extract_cards ls of None \<Rightarrow> Panic
                   | Some cs \<Rightarrow> if cs = [] then Failed NoCardsFound else Loaded cs)"
    by auto
  from o have e: "extract_cards ls = Some cs" by (auto split: option.splits if_splits)
  have "\<forall>l \<in> set (scan_lines data). CHR 0x0A \<notin> set l" using scan_lines_no_newline by blast
  from first_loop_ids [OF f this assms(2,3)] have "distinct (decoded ls)" by simp
  with e show ?thesis by (rule extract_cards_distinct)
qed

theorem OpenFile_ids_distinct_witness:
  "distinct (map Id deck2_cards) \<and> map Id deck2_cards = [''dupl'', ''AAAA'']"
proof -
  have "\<forall>k. valid_id ((\<lambda>n. ''AAAA'') k)" by (simp add: valid_id_def alphabet_def)
  moreover have "valid_date \<lparr>year = 2026, month = 10, day = 31\<rparr>"
    by (simp add: valid_date_def daysIn_def)
  ultimately have "distinct (map Id deck2_cards)"
    using OpenFile_ids_distinct [OF deck2_OpenFile] by blast
  then show ?thesis by (simp add: deck2_cards_def)
qed

section \<open>What \<^verbatim>\<open>OpenFile\<close> writes\<close>




end
